theory Spec2Isabelle
  imports Complex_Main "HOL-Library.Multiset"
begin

section \<open>Values, errors and the sequence core\<close>

text \<open>
  A thrown JavaScript exception is a value of \<open>error\<close>: \<open>Error msg\<close> is
  \<^verbatim>\<open>new Error(msg)\<close>, \<open>RangeError msg\<close> is the engine's own \<^verbatim>\<open>RangeError\<close>.
  A function that can throw returns \<open>error + 'a\<close>, with \<open>Inl\<close> for the throw.
\<close>

datatype error = Error string | RangeError string

text \<open>
  The type \<^verbatim>\<open>number\<close>: either \<open>NaN\<close> or a finite number. \<open>NaN\<close> is absorbing, and every
  comparison with \<open>NaN\<close> is false, as in JavaScript. The arithmetic \<open>num_add\<close>, \<open>num_div\<close>
  and \<open>num_neg\<close> is exact (no rounding, no infinities): it is the engine's arithmetic on
  doubles wherever the exact result is itself a double, as it is for sums of integers that
  stay within \<open>\<plusminus>2^53\<close>.
\<close>

datatype number = NaN | Num real

fun num_add :: "number \<Rightarrow> number \<Rightarrow> number" where
  "num_add (Num a) (Num b) = Num (a + b)"
| "num_add _ _ = NaN"

fun num_div :: "number \<Rightarrow> number \<Rightarrow> number" where
  "num_div (Num a) (Num b) = (if b = 0 then NaN else Num (a / b))"
| "num_div _ _ = NaN"

fun num_neg :: "number \<Rightarrow> number" where
  "num_neg (Num a) = Num (- a)"
| "num_neg NaN = NaN"

fun js_lt :: "number \<Rightarrow> number \<Rightarrow> bool" where
  "js_lt (Num a) (Num b) = (a < b)"
| "js_lt _ _ = False"

fun js_gt :: "number \<Rightarrow> number \<Rightarrow> bool" where
  "js_gt (Num a) (Num b) = (a > b)"
| "js_gt _ _ = False"

fun js_eq :: "number \<Rightarrow> number \<Rightarrow> bool" where
  "js_eq (Num a) (Num b) = (a = b)"
| "js_eq _ _ = False"

text \<open>
  The object an \<^verbatim>\<open>Enumerable\<close> wraps (its private field \<^verbatim>\<open>iterable\<close>) may carry a
  \<^verbatim>\<open>[Symbol.iterator]\<close> method, a \<^verbatim>\<open>[Symbol.asyncIterator]\<close> method, or both. A method
  that is present is modelled by what draining its iterator gives: the list of items it
  yields, or the error it throws; \<open>None\<close> is an absent method. An array or a
  \<^verbatim>\<open>Set\<close> can be drained any number of times with the same result; a generator object
  only once (what a second traversal of it sees is modelled in the memoization layer,
  where it matters).
\<close>

record 'a source =
  Symbol_iterator :: "(error + 'a list) option"
  Symbol_asyncIterator :: "(error + 'a list) option"

datatype 'a Enumerable = Enumerable (iterable: "'a source")

definition async_message :: string where
  "async_message =
     ''This enumerable is async '' @ [CHR 0xE2, CHR 0x80, CHR 0x94] @
     '' use for await or toArrayAsync()''"

text \<open>\<^verbatim>\<open>Enumerable[Symbol.iterator]()\<close> followed by draining: the synchronous pull.\<close>

definition iterator :: "'a Enumerable \<Rightarrow> error + 'a list" where
  "iterator this =
     (case Symbol_iterator (iterable this) of
        Some drained \<Rightarrow> drained
      | None \<Rightarrow> Inl (Error async_message))"

text \<open>An array or a \<^verbatim>\<open>Set\<close>: synchronously iterable only, and it never throws.\<close>

definition sync_source :: "'a list \<Rightarrow> 'a source" where
  "sync_source items = \<lparr>Symbol_iterator = Some (Inr items), Symbol_asyncIterator = None\<rparr>"

text \<open>
  \<^verbatim>\<open>new Enumerable(generator())\<close>: a generator object is synchronously iterable only;
  \<open>body\<close> is what running the generator function's body to its end gives.
\<close>

definition generator :: "error + 'a list \<Rightarrow> 'a Enumerable" where
  "generator body = Enumerable \<lparr>Symbol_iterator = Some body, Symbol_asyncIterator = None\<rparr>"

text \<open>
  The object that \<^verbatim>\<open>memoizeAsync\<close> wraps (\<^verbatim>\<open>memoizedIterable\<close>) has a
  \<^verbatim>\<open>[Symbol.asyncIterator]\<close> method only, like an async generator object.
\<close>

definition async_only_source :: "'a list \<Rightarrow> 'a source" where
  "async_only_source items = \<lparr>Symbol_iterator = None, Symbol_asyncIterator = Some (Inr items)\<rparr>"

definition empty :: "'a Enumerable" where
  "empty = generator (Inr [])"

definition from_seq :: "'a list \<Rightarrow> 'a Enumerable" where
  "from_seq items = Enumerable (sync_source items)"

definition toArray :: "'a Enumerable \<Rightarrow> error + 'a list" where
  "toArray this = iterator this"

definition toSet :: "'a Enumerable \<Rightarrow> error + 'a set" where
  "toSet this = map_sum id set (iterator this)"

text \<open>
  \<^verbatim>\<open>new Array(count)\<close> with a number argument throws
  \<^verbatim>\<open>RangeError: Invalid array length\<close> unless the argument is an integer in
  \<open>[0, 2^32 - 1]\<close>.
\<close>

definition valid_array_length :: "number \<Rightarrow> bool" where
  "valid_array_length len =
     (case len of
        NaN \<Rightarrow> False
      | Num c \<Rightarrow> c = of_int \<lfloor>c\<rfloor> \<and> 0 \<le> c \<and> c < 2 ^ 32)"

text \<open>
  The loop of \<^verbatim>\<open>range\<close>: \<^verbatim>\<open>for (let i = 0; i < count; i++) arr[i] = start + i\<close>.
  The slot written is always the first empty one, so \<open>arr\<close> holds the slots filled so far.
  The sum \<^verbatim>\<open>start + i\<close> is the engine's addition of doubles, which rounds, and which is
  defined on \<open>NaN\<close> and on the infinities as well: it is the parameter \<open>add\<close>, on a type
  \<open>'n\<close> of numbers that is left open, so that nothing is assumed of it. The loop index
  \<open>i\<close> is an integer below \<open>2^32\<close>, a double.
\<close>

function range_loop :: "('n \<Rightarrow> number \<Rightarrow> 'n) \<Rightarrow> 'n \<Rightarrow> nat \<Rightarrow> nat \<Rightarrow> 'n list \<Rightarrow> 'n list" where
  "range_loop add start cnt i arr =
     (if i < cnt then range_loop add start cnt (i + 1) (arr @ [add start (Num (real i))])
      else arr)"
  by pat_completeness auto
termination
  by (relation "measure (\<lambda>(add, start, cnt, i, arr). cnt - i)") auto

declare range_loop.simps [simp del]

definition range :: "('n \<Rightarrow> number \<Rightarrow> 'n) \<Rightarrow> 'n \<Rightarrow> number \<Rightarrow> error + 'n Enumerable" where
  "range add start cnt =
     (if valid_array_length cnt
      then (case cnt of
              Num c \<Rightarrow> Inr (Enumerable (sync_source (range_loop add start (nat \<lfloor>c\<rfloor>) 0 [])))
            | NaN \<Rightarrow> Inl (RangeError ''Invalid array length''))
      else Inl (RangeError ''Invalid array length''))"

section \<open>Aggregation terminals\<close>

text \<open>
  Every terminal runs \<^verbatim>\<open>for (const item of this)\<close>: it first takes the synchronous
  iterator (which may throw) and then loops over the items. \<open>None\<close> is \<^verbatim>\<open>undefined\<close>.
\<close>

fun first_loop :: "('a \<Rightarrow> bool) option \<Rightarrow> 'a list \<Rightarrow> 'a option" where
  "first_loop predicate [] = None"
| "first_loop predicate (item # rest) =
     (case predicate of
        Some p \<Rightarrow> if p item then Some item else first_loop predicate rest
      | None \<Rightarrow> Some item)"

definition first :: "'a Enumerable \<Rightarrow> ('a \<Rightarrow> bool) option \<Rightarrow> error + 'a option" where
  "first this predicate = map_sum id (first_loop predicate) (iterator this)"

fun count_loop :: "('a \<Rightarrow> bool) option \<Rightarrow> nat \<Rightarrow> 'a list \<Rightarrow> nat" where
  "count_loop predicate i [] = i"
| "count_loop predicate i (item # rest) =
     (case predicate of
        Some p \<Rightarrow> if \<not> p item then count_loop predicate i rest
                  else count_loop predicate (i + 1) rest
      | None \<Rightarrow> count_loop predicate (i + 1) rest)"

definition count_seq :: "'a Enumerable \<Rightarrow> ('a \<Rightarrow> bool) option \<Rightarrow> error + nat" where
  "count_seq this predicate = map_sum id (count_loop predicate 0) (iterator this)"

text \<open>\<open>toNumber\<close> is the built-in coercion \<^verbatim>\<open>Number(item)\<close>.\<close>

fun sum_loop :: "('a \<Rightarrow> number) \<Rightarrow> ('a \<Rightarrow> number) option \<Rightarrow> number \<Rightarrow> 'a list \<Rightarrow> number" where
  "sum_loop toNumber selector i [] = i"
| "sum_loop toNumber selector i (item # rest) =
     (case selector of
        Some sel \<Rightarrow> sum_loop toNumber selector (num_add i (sel item)) rest
      | None \<Rightarrow> sum_loop toNumber selector (num_add i (toNumber item)) rest)"

definition sum_seq ::
  "('a \<Rightarrow> number) \<Rightarrow> 'a Enumerable \<Rightarrow> ('a \<Rightarrow> number) option \<Rightarrow> error + number" where
  "sum_seq toNumber this selector =
     map_sum id (sum_loop toNumber selector (Num 0)) (iterator this)"

fun average_loop ::
  "('a \<Rightarrow> number) \<Rightarrow> ('a \<Rightarrow> number) option \<Rightarrow> number \<Rightarrow> nat \<Rightarrow> 'a list \<Rightarrow> number \<times> nat" where
  "average_loop toNumber selector acc cnt [] = (acc, cnt)"
| "average_loop toNumber selector acc cnt (item # rest) =
     (case selector of
        Some sel \<Rightarrow> average_loop toNumber selector (num_add acc (sel item)) (cnt + 1) rest
      | None \<Rightarrow> average_loop toNumber selector (num_add acc (toNumber item)) (cnt + 1) rest)"

definition average ::
  "('a \<Rightarrow> number) \<Rightarrow> 'a Enumerable \<Rightarrow> ('a \<Rightarrow> number) option \<Rightarrow> error + number" where
  "average toNumber this selector =
     map_sum id
       (\<lambda>items. case average_loop toNumber selector (Num 0) 0 items of
           (acc, cnt) \<Rightarrow> if cnt = 0 then Num 0 else num_div acc (Num (real cnt)))
       (iterator this)"

text \<open>
  \<^verbatim>\<open>max\<close> and \<^verbatim>\<open>min\<close> over numbers; the local \<^verbatim>\<open>max\<close> (here \<open>cur\<close>)
  starts out unassigned (\<open>None\<close>) and is what the method returns.
\<close>

fun max_loop :: "bool \<Rightarrow> number option \<Rightarrow> number list \<Rightarrow> number option" where
  "max_loop hasValue cur [] = cur"
| "max_loop hasValue cur (item # rest) =
     (if \<not> hasValue then max_loop True (Some item) rest
      else case cur of
             Some m \<Rightarrow> if js_gt item m then max_loop hasValue (Some item) rest
                       else max_loop hasValue cur rest
           | None \<Rightarrow> max_loop hasValue cur rest)"

definition max_seq :: "number Enumerable \<Rightarrow> error + number option" where
  "max_seq this = map_sum id (max_loop False None) (iterator this)"

fun min_loop :: "bool \<Rightarrow> number option \<Rightarrow> number list \<Rightarrow> number option" where
  "min_loop hasValue cur [] = cur"
| "min_loop hasValue cur (item # rest) =
     (if \<not> hasValue then min_loop True (Some item) rest
      else case cur of
             Some m \<Rightarrow> if js_lt item m then min_loop hasValue (Some item) rest
                       else min_loop hasValue cur rest
           | None \<Rightarrow> min_loop hasValue cur rest)"

definition min_seq :: "number Enumerable \<Rightarrow> error + number option" where
  "min_seq this = map_sum id (min_loop False None) (iterator this)"

fun all_loop :: "('a \<Rightarrow> bool) \<Rightarrow> 'a list \<Rightarrow> bool" where
  "all_loop predicate [] = True"
| "all_loop predicate (item # rest) =
     (if \<not> predicate item then False else all_loop predicate rest)"

definition all_seq :: "'a Enumerable \<Rightarrow> ('a \<Rightarrow> bool) \<Rightarrow> error + bool" where
  "all_seq this predicate = map_sum id (all_loop predicate) (iterator this)"

fun any_loop :: "('a \<Rightarrow> bool) option \<Rightarrow> bool \<Rightarrow> 'a list \<Rightarrow> bool" where
  "any_loop predicate isMatch [] = isMatch"
| "any_loop predicate isMatch (item # rest) =
     (let isMatch1 = (if predicate = None then True else isMatch);
          isMatch2 = (case predicate of
                        Some p \<Rightarrow> if p item then True else isMatch1
                      | None \<Rightarrow> isMatch1)
      in if isMatch2 then isMatch2 else any_loop predicate isMatch2 rest)"

definition any_seq :: "'a Enumerable \<Rightarrow> ('a \<Rightarrow> bool) option \<Rightarrow> error + bool" where
  "any_seq this predicate = map_sum id (any_loop predicate False) (iterator this)"

text \<open>
  \<^verbatim>\<open>contains\<close>: strict equality \<^verbatim>\<open>===\<close> is equality of the value type (for numbers
  the two differ at \<open>NaN\<close> only, which is not \<^verbatim>\<open>===\<close> to itself).
\<close>

fun contains_loop :: "'a \<Rightarrow> 'a list \<Rightarrow> bool" where
  "contains_loop v [] = False"
| "contains_loop v (item # rest) = (if item = v then True else contains_loop v rest)"

definition contains :: "'a Enumerable \<Rightarrow> 'a \<Rightarrow> error + bool" where
  "contains this v = map_sum id (contains_loop v) (iterator this)"

section \<open>Operator pipeline: set-like operators\<close>

text \<open>
  The TypeScript types \<^verbatim>\<open>T\<close> of the elements and \<^verbatim>\<open>S\<close> of the keys are both sets of
  JavaScript values, and the code keeps elements and keys in one \<^verbatim>\<open>Set<T | S>\<close>; a single
  type \<open>'a\<close> of values stands for both. Membership in a \<^verbatim>\<open>Set\<close> (SameValueZero) is
  equality of \<open>'a\<close>.
\<close>

fun distinct_loop :: "'a set \<Rightarrow> 'a list \<Rightarrow> 'a list" where
  "distinct_loop seen [] = []"
| "distinct_loop seen (item # rest) =
     (if item \<notin> seen then item # distinct_loop (insert item seen) rest
      else distinct_loop seen rest)"

definition distinct_seq :: "'a Enumerable \<Rightarrow> 'a Enumerable" where
  "distinct_seq self = generator (map_sum id (distinct_loop {}) (iterator self))"

fun distinctBy_loop :: "('a \<Rightarrow> 'k) \<Rightarrow> 'k set \<Rightarrow> 'a list \<Rightarrow> 'a list" where
  "distinctBy_loop keySelector seen [] = []"
| "distinctBy_loop keySelector seen (item # rest) =
     (let key = keySelector item
      in if key \<notin> seen then item # distinctBy_loop keySelector (insert key seen) rest
         else distinctBy_loop keySelector seen rest)"

definition distinctBy :: "'a Enumerable \<Rightarrow> ('a \<Rightarrow> 'k) \<Rightarrow> 'a Enumerable" where
  "distinctBy self keySelector =
     generator (map_sum id (distinctBy_loop keySelector {}) (iterator self))"

text \<open>
  One of the two loops of \<^verbatim>\<open>union\<close>; it returns the items it yields and the set
  \<^verbatim>\<open>seen\<close> as the loop leaves it.
\<close>

fun union_loop :: "('a \<Rightarrow> 'a) option \<Rightarrow> 'a set \<Rightarrow> 'a list \<Rightarrow> 'a list \<times> 'a set" where
  "union_loop keySelector seen [] = ([], seen)"
| "union_loop keySelector seen (item # rest) =
     (let key = (case keySelector of Some f \<Rightarrow> f item | None \<Rightarrow> item)
      in if key \<notin> seen
         then (case union_loop keySelector (insert key seen) rest of
                 (yielded, seen') \<Rightarrow> (item # yielded, seen'))
         else union_loop keySelector seen rest)"

definition union_seq ::
  "'a Enumerable \<Rightarrow> 'a Enumerable \<Rightarrow> ('a \<Rightarrow> 'a) option \<Rightarrow> 'a Enumerable" where
  "union_seq self enumerable keySelector =
     generator
       (case iterator self of
          Inl e \<Rightarrow> Inl e
        | Inr items \<Rightarrow>
            (case union_loop keySelector {} items of
               (yielded1, seen1) \<Rightarrow>
                 (case iterator enumerable of
                    Inl e \<Rightarrow> Inl e
                  | Inr others \<Rightarrow>
                      (case union_loop keySelector seen1 others of
                         (yielded2, seen2) \<Rightarrow> Inr (yielded1 @ yielded2)))))"

fun intersect_loop :: "('a \<Rightarrow> 'a) option \<Rightarrow> 'a set \<Rightarrow> 'a list \<Rightarrow> 'a list" where
  "intersect_loop keySelector st [] = []"
| "intersect_loop keySelector st (item # rest) =
     (let key = (case keySelector of Some f \<Rightarrow> f item | None \<Rightarrow> item)
      in if key \<in> st then item # intersect_loop keySelector st rest
         else intersect_loop keySelector st rest)"

definition intersect ::
  "'a Enumerable \<Rightarrow> 'a Enumerable \<Rightarrow> ('a \<Rightarrow> 'a) option \<Rightarrow> 'a Enumerable" where
  "intersect self enumerable keySelector =
     generator
       (case toSet enumerable of
          Inl e \<Rightarrow> Inl e
        | Inr st \<Rightarrow> map_sum id (intersect_loop keySelector st) (iterator self))"

text \<open>
  The first-seen-order deduplication of a list by a key: each element is kept unless an
  earlier element has the same key. This definition follows the words of the
  specification, not the code.
\<close>

fun first_seen_dedup :: "('a \<Rightarrow> 'k) \<Rightarrow> 'a list \<Rightarrow> 'a list" where
  "first_seen_dedup key [] = []"
| "first_seen_dedup key (x # xs) = x # first_seen_dedup key (filter (\<lambda>y. key y \<noteq> key x) xs)"

definition key_of :: "('a \<Rightarrow> 'a) option \<Rightarrow> 'a \<Rightarrow> 'a" where
  "key_of keySelector item = (case keySelector of Some f \<Rightarrow> f item | None \<Rightarrow> item)"

section \<open>JavaScript values and \<^verbatim>\<open>JSON.stringify\<close>\<close>

text \<open>
  The JavaScript values that elements and keys range over in the memoization layer:
  \<^verbatim>\<open>undefined\<close>, integers (of the size that a number holds exactly and prints in
  decimal digits), strings, and plain objects. An object carries its address
  (two objects are the same object exactly when their addresses are equal) and its own
  enumerable properties in the order the engine enumerates them.
\<close>

datatype jsval = JUndefined | JNum int | JStr string | JObj nat "(string \<times> jsval) list"

text \<open>Property access \<^verbatim>\<open>obj.name\<close>.\<close>

fun get_prop :: "string \<Rightarrow> jsval \<Rightarrow> jsval" where
  "get_prop name (JObj address props) =
     (case map_of props name of Some v \<Rightarrow> v | None \<Rightarrow> JUndefined)"
| "get_prop name _ = JUndefined"

fun decimal :: "nat \<Rightarrow> string" where
  "decimal n =
     (if n < 10 then [''0123456789'' ! n]
      else decimal (n div 10) @ [''0123456789'' ! (n mod 10)])"

declare decimal.simps [simp del]

definition Number_toString :: "int \<Rightarrow> string" where
  "Number_toString i = (if i < 0 then CHR ''-'' # decimal (nat (- i)) else decimal (nat i))"

text \<open>
  \<^verbatim>\<open>QuoteJSONString\<close>: the quote (0x22) and the backslash (0x5C) are escaped with a
  backslash, control characters by their short escapes or \<^verbatim>\<open>\u00XX\<close>; every other
  character is copied.
\<close>

definition escape_char :: "char \<Rightarrow> string" where
  "escape_char c =
     (if c = CHR 0x22 then [CHR 0x5C, CHR 0x22]
      else if c = CHR 0x5C then [CHR 0x5C, CHR 0x5C]
      else if c = CHR 0x08 then [CHR 0x5C, CHR ''b'']
      else if c = CHR 0x0C then [CHR 0x5C, CHR ''f'']
      else if c = CHR 0x0A then [CHR 0x5C, CHR ''n'']
      else if c = CHR 0x0D then [CHR 0x5C, CHR ''r'']
      else if c = CHR 0x09 then [CHR 0x5C, CHR ''t'']
      else if (of_char c :: nat) < 32
        then [CHR 0x5C, CHR ''u'', CHR ''0'', CHR ''0'',
              ''0123456789abcdef'' ! (of_char c div 16), ''0123456789abcdef'' ! (of_char c mod 16)]
      else [c])"

definition quote :: "string \<Rightarrow> string" where
  "quote s = [CHR 0x22] @ concat (map escape_char s) @ [CHR 0x22]"

fun join_comma :: "string list \<Rightarrow> string" where
  "join_comma [] = []"
| "join_comma [s] = s"
| "join_comma (s # t # rest) = s @ '','' @ join_comma (t # rest)"

text \<open>
  The serialization of a value that is not \<^verbatim>\<open>undefined\<close>. A property whose value is
  \<^verbatim>\<open>undefined\<close> is left out of its object. The address of an object is not read.
\<close>

fun serialize :: "jsval \<Rightarrow> string"
  and serialize_props :: "(string \<times> jsval) list \<Rightarrow> string list" where
  "serialize JUndefined = ''null''"
| "serialize (JNum i) = Number_toString i"
| "serialize (JStr s) = quote s"
| "serialize (JObj address props) = ''{'' @ join_comma (serialize_props props) @ ''}''"
| "serialize_props [] = []"
| "serialize_props ((name, v) # rest) =
     (if v = JUndefined then serialize_props rest
      else (quote name @ '':'' @ serialize v) # serialize_props rest)"

text \<open>\<^verbatim>\<open>JSON.stringify(item)\<close>: \<^verbatim>\<open>undefined\<close> for \<^verbatim>\<open>undefined\<close>, a string otherwise.\<close>

definition JSON_stringify :: "jsval \<Rightarrow> jsval" where
  "JSON_stringify item = (if item = JUndefined then JUndefined else JStr (serialize item))"

section \<open>Memoization layer, synchronous\<close>

text \<open>
  The state that outlives one traversal of a memoized sequence: the \<^verbatim>\<open>Map\<close> named
  \<^verbatim>\<open>cache\<close>, created once per call of \<^verbatim>\<open>memoize\<close>, and, to count invocations, the
  list \<open>calls\<close> of the arguments \<^verbatim>\<open>fn\<close> has been invoked on, oldest first.
\<close>

record 's memo =
  cache :: "jsval \<rightharpoonup> 's"
  calls :: "jsval list"

definition new_memo :: "'s memo" where
  "new_memo = \<lparr>cache = Map.empty, calls = []\<rparr>"

definition memo_key :: "(jsval \<Rightarrow> jsval) option \<Rightarrow> jsval \<Rightarrow> jsval" where
  "memo_key keySelector item =
     (case keySelector of Some f \<Rightarrow> f item | None \<Rightarrow> JSON_stringify item)"

text \<open>
  One traversal of the memoized iterable over the items of \<^verbatim>\<open>self\<close>: the generator of
  \<^verbatim>\<open>memoizedIterable[Symbol.iterator]\<close>, run to its end. It returns what it yields and the
  state it leaves.
\<close>

fun memoize_loop ::
  "(jsval \<Rightarrow> 's) \<Rightarrow> (jsval \<Rightarrow> jsval) option \<Rightarrow> jsval list \<Rightarrow> 's memo \<Rightarrow> 's list \<times> 's memo" where
  "memoize_loop fn keySelector [] m = ([], m)"
| "memoize_loop fn keySelector (item # rest) m =
     (let key = memo_key keySelector item
      in case cache m key of
           Some cached \<Rightarrow>
             (case memoize_loop fn keySelector rest m of
                (yielded, m') \<Rightarrow> (cached # yielded, m'))
         | None \<Rightarrow>
             (let result = fn item;
                  m1 = m\<lparr>cache := (cache m)(key \<mapsto> result), calls := calls m @ [item]\<rparr>
              in case memoize_loop fn keySelector rest m1 of
                   (yielded, m') \<Rightarrow> (result # yielded, m')))"

text \<open>
  What \<^verbatim>\<open>self\<close> wraps decides what a second \<^verbatim>\<open>for (const item of self)\<close> sees. An
  array or a \<^verbatim>\<open>Set\<close> (as \<^verbatim>\<open>Enumerable.from\<close> wraps) gives a fresh iterator over all its
  items every time. A stage such as \<^verbatim>\<open>select\<close> or \<^verbatim>\<open>where\<close> wraps one generator object,
  \<^verbatim>\<open>new Enumerable(generator())\<close>, whose \<^verbatim>\<open>[Symbol.iterator]()\<close> is the object itself:
  the items it has yielded are gone. \<open>Reiterable items\<close> is the former,
  \<open>GeneratorObject pending\<close> the latter with the items it has yet to yield. Neither
  throws here.
\<close>

datatype upstream = Reiterable "jsval list" | GeneratorObject "jsval list"

text \<open>A loop \<^verbatim>\<open>for (const item of self)\<close> that runs to its end: the items, and \<^verbatim>\<open>self\<close> after it.\<close>

fun for_of :: "upstream \<Rightarrow> jsval list \<times> upstream" where
  "for_of (Reiterable items) = (items, Reiterable items)"
| "for_of (GeneratorObject pending) = (pending, GeneratorObject [])"

text \<open>
  \<open>n\<close> full traversals of one memoized sequence, one after the other: each calls
  \<^verbatim>\<open>memoizedIterable[Symbol.iterator]()\<close>, which starts a new generator over \<^verbatim>\<open>self\<close> and
  the shared cache.
\<close>

fun traversals ::
  "(jsval \<Rightarrow> 's) \<Rightarrow> (jsval \<Rightarrow> jsval) option \<Rightarrow> upstream \<Rightarrow> nat \<Rightarrow> 's memo
     \<Rightarrow> 's list list \<times> 's memo" where
  "traversals fn keySelector self 0 m = ([], m)"
| "traversals fn keySelector self (Suc n) m =
     (case for_of self of
        (items, self') \<Rightarrow>
          (case memoize_loop fn keySelector items m of
             (yielded, m1) \<Rightarrow>
               (case traversals fn keySelector self' n m1 of
                  (outs, m2) \<Rightarrow> (yielded # outs, m2))))"

text \<open>The state after a cache miss on \<open>x\<close>: the result is stored and the call logged.\<close>

definition miss :: "(jsval \<Rightarrow> 's) \<Rightarrow> (jsval \<Rightarrow> jsval) option \<Rightarrow> jsval \<Rightarrow> 's memo \<Rightarrow> 's memo" where
  "miss fn ks x m = m\<lparr>cache := (cache m)(memo_key ks x \<mapsto> fn x), calls := calls m @ [x]\<rparr>"

text \<open>The function the repository's memoization test wraps: \<^verbatim>\<open>(n) => n * n\<close>.\<close>

definition square :: "jsval \<Rightarrow> int" where
  "square v = (case v of JNum i \<Rightarrow> i * i | _ \<Rightarrow> 0)"

section \<open>Ordering engine\<close>

text \<open>
  The body of the generator of \<^verbatim>\<open>orderBy\<close> on the materialized array \<open>arr\<close>; the
  recursive calls \<^verbatim>\<open>new Enumerable(left).orderBy(selector)\<close> materialize \<open>left\<close> and
  \<open>right\<close> again. Keys are numbers, compared with \<^verbatim>\<open><\<close>, \<^verbatim>\<open>===\<close> and \<^verbatim>\<open>>\<close>.
\<close>

function orderBy_sort :: "('a \<Rightarrow> number) \<Rightarrow> 'a list \<Rightarrow> 'a list" where
  "orderBy_sort selector arr =
     (if length arr \<le> 1 then arr
      else (let pivot = selector (last arr);
                left = filter (\<lambda>x. js_lt (selector x) pivot) arr;
                equal = filter (\<lambda>x. js_eq (selector x) pivot) arr;
                right = filter (\<lambda>x. js_gt (selector x) pivot) arr
            in orderBy_sort selector left @ equal @ orderBy_sort selector right))"
  by pat_completeness auto
termination
proof (relation "measure (\<lambda>(selector, arr). length arr)")
  show "wf (measure (\<lambda>(selector, arr). length arr))" by simp
next
  fix selector :: "'a \<Rightarrow> number" and arr :: "'a list" and pivot left
  assume long: "\<not> length arr \<le> 1" and p: "pivot = selector (last arr)"
    and b: "left = filter (\<lambda>x. js_lt (selector x) pivot) arr"
  from long have "arr \<noteq> []" by auto
  then have "last arr \<in> set arr" by (rule last_in_set)
  moreover have "\<not> js_lt (selector (last arr)) pivot"
    unfolding p by (cases "selector (last arr)") simp_all
  ultimately have "length left < length arr"
    unfolding b by (rule length_filter_less)
  then show "((selector, left), (selector, arr)) \<in> measure (\<lambda>(selector, arr). length arr)"
    by simp
next
  fix selector :: "'a \<Rightarrow> number" and arr :: "'a list" and pivot left equal right
  assume long: "\<not> length arr \<le> 1" and p: "pivot = selector (last arr)"
    and b: "right = filter (\<lambda>x. js_gt (selector x) pivot) arr"
  from long have "arr \<noteq> []" by auto
  then have "last arr \<in> set arr" by (rule last_in_set)
  moreover have "\<not> js_gt (selector (last arr)) pivot"
    unfolding p by (cases "selector (last arr)") simp_all
  ultimately have "length right < length arr"
    unfolding b by (rule length_filter_less)
  then show "((selector, right), (selector, arr)) \<in> measure (\<lambda>(selector, arr). length arr)"
    by simp
qed

declare orderBy_sort.simps [simp del]

function orderByDescending_sort :: "('a \<Rightarrow> number) \<Rightarrow> 'a list \<Rightarrow> 'a list" where
  "orderByDescending_sort selector arr =
     (if length arr \<le> 1 then arr
      else (let pivot = selector (last arr);
                left = filter (\<lambda>x. js_gt (selector x) pivot) arr;
                equal = filter (\<lambda>x. js_eq (selector x) pivot) arr;
                right = filter (\<lambda>x. js_lt (selector x) pivot) arr
            in orderByDescending_sort selector left @ equal
                 @ orderByDescending_sort selector right))"
  by pat_completeness auto
termination
proof (relation "measure (\<lambda>(selector, arr). length arr)")
  show "wf (measure (\<lambda>(selector, arr). length arr))" by simp
next
  fix selector :: "'a \<Rightarrow> number" and arr :: "'a list" and pivot left
  assume long: "\<not> length arr \<le> 1" and p: "pivot = selector (last arr)"
    and b: "left = filter (\<lambda>x. js_gt (selector x) pivot) arr"
  from long have "arr \<noteq> []" by auto
  then have "last arr \<in> set arr" by (rule last_in_set)
  moreover have "\<not> js_gt (selector (last arr)) pivot"
    unfolding p by (cases "selector (last arr)") simp_all
  ultimately have "length left < length arr"
    unfolding b by (rule length_filter_less)
  then show "((selector, left), (selector, arr)) \<in> measure (\<lambda>(selector, arr). length arr)"
    by simp
next
  fix selector :: "'a \<Rightarrow> number" and arr :: "'a list" and pivot left equal right
  assume long: "\<not> length arr \<le> 1" and p: "pivot = selector (last arr)"
    and b: "right = filter (\<lambda>x. js_lt (selector x) pivot) arr"
  from long have "arr \<noteq> []" by auto
  then have "last arr \<in> set arr" by (rule last_in_set)
  moreover have "\<not> js_lt (selector (last arr)) pivot"
    unfolding p by (cases "selector (last arr)") simp_all
  ultimately have "length right < length arr"
    unfolding b by (rule length_filter_less)
  then show "((selector, right), (selector, arr)) \<in> measure (\<lambda>(selector, arr). length arr)"
    by simp
qed

declare orderByDescending_sort.simps [simp del]

text \<open>
  \<^verbatim>\<open>Array.from(self.iterable)\<close>, as \<^verbatim>\<open>orderBy\<close> calls it on the wrapped object itself: an
  object with no \<^verbatim>\<open>[Symbol.iterator]\<close> method and no \<^verbatim>\<open>length\<close> gives the empty array.
  \<^verbatim>\<open>orderByDescending\<close> calls \<^verbatim>\<open>Array.from(self)\<close>, the synchronous pull.
\<close>

definition Array_from :: "'a source \<Rightarrow> error + 'a list" where
  "Array_from src = (case Symbol_iterator src of Some drained \<Rightarrow> drained | None \<Rightarrow> Inr [])"

definition orderBy :: "'a Enumerable \<Rightarrow> ('a \<Rightarrow> number) \<Rightarrow> 'a Enumerable" where
  "orderBy self selector =
     generator (map_sum id (orderBy_sort selector) (Array_from (iterable self)))"

definition orderByDescending :: "'a Enumerable \<Rightarrow> ('a \<Rightarrow> number) \<Rightarrow> 'a Enumerable" where
  "orderByDescending self selector =
     generator (map_sum id (orderByDescending_sort selector) (iterator self))"

section \<open>Deferred execution: the iterator protocol\<close>

text \<open>
  The sections above describe a stage by what it yields when it is traversed to its end.
  Here a stage is its iterator, pulled one item at a time, so that it is visible which
  upstream items a pull consumes and which caller-supplied functions it invokes.
  An iterator is an array iterator (the items not yet delivered) or the generator of
  \<^verbatim>\<open>select\<close>, \<^verbatim>\<open>where\<close> or \<^verbatim>\<open>take\<close>, holding its captured arguments, its local
  variable \<^verbatim>\<open>i\<close> (for \<^verbatim>\<open>take\<close>) and the iterator of \<^verbatim>\<open>self\<close>.
  The log \<open>lg\<close> records every invocation of a caller-supplied function, oldest first.
\<close>

datatype 'a iter =
    ArrayIter "'a list"
  | SelectGen "'a \<Rightarrow> 'a" "'a iter"
  | WhereGen "'a \<Rightarrow> bool" "'a iter"
  | TakeGen int int "'a iter"

datatype 'a call = MapperCall 'a | PredicateCall 'a

text \<open>The number of items the array at the source of the pipeline has not delivered yet.\<close>

fun remaining :: "'a iter \<Rightarrow> nat" where
  "remaining (ArrayIter items) = length items"
| "remaining (SelectGen mapper up) = remaining up"
| "remaining (WhereGen predicate up) = remaining up"
| "remaining (TakeGen n i up) = remaining up"

text \<open>
  One call of \<^verbatim>\<open>next()\<close>: the item delivered (\<open>None\<close> when the iterator is done), the
  iterator afterwards and the log afterwards. The generator of \<^verbatim>\<open>take\<close> has no
  \<^verbatim>\<open>break\<close>: once \<^verbatim>\<open>i > n\<close> it keeps pulling \<^verbatim>\<open>self\<close> without yielding.
\<close>

function next_item :: "'a iter \<Rightarrow> 'a call list \<Rightarrow> 'a option \<times> 'a iter \<times> 'a call list" where
  "next_item (ArrayIter []) lg = (None, ArrayIter [], lg)"
| "next_item (ArrayIter (item # rest)) lg = (Some item, ArrayIter rest, lg)"
| "next_item (SelectGen mapper up) lg =
     (case next_item up lg of
        (None, up', lg') \<Rightarrow> (None, SelectGen mapper up', lg')
      | (Some item, up', lg') \<Rightarrow>
          (Some (mapper item), SelectGen mapper up', lg' @ [MapperCall item]))"
| "next_item (WhereGen predicate up) lg =
     (case next_item up lg of
        (None, up', lg') \<Rightarrow> (None, WhereGen predicate up', lg')
      | (Some item, up', lg') \<Rightarrow>
          if predicate item
          then (Some item, WhereGen predicate up', lg' @ [PredicateCall item])
          else next_item (WhereGen predicate up') (lg' @ [PredicateCall item]))"
| "next_item (TakeGen n i up) lg =
     (case next_item up lg of
        (None, up', lg') \<Rightarrow> (None, TakeGen n i up', lg')
      | (Some item, up', lg') \<Rightarrow>
          if i \<le> n then (Some item, TakeGen n (i + 1) up', lg')
          else next_item (TakeGen n i up') lg')"
  by pat_completeness auto

lemma next_item_remaining:
  "next_item_dom (it, lg) \<Longrightarrow> next_item it lg = (r, it', lg') \<Longrightarrow>
   remaining it' \<le> remaining it \<and> (r \<noteq> None \<longrightarrow> remaining it' < remaining it)"
proof (induction it lg arbitrary: r it' lg' rule: next_item.pinduct)
  case (1 lg)
  then show ?case by (simp add: next_item.psimps)
next
  case (2 item rest lg)
  then show ?case by (auto simp: next_item.psimps)
next
  case (3 mapper up lg)
  then show ?case
    by (auto simp: next_item.psimps split: prod.splits option.splits)
next
  case (4 predicate up lg)
  then show ?case
    by (fastforce simp: next_item.psimps split: prod.splits option.splits if_splits)
next
  case (5 n i up lg)
  then show ?case
    by (fastforce simp: next_item.psimps split: prod.splits option.splits if_splits)
qed

termination next_item
proof (relation "measures [\<lambda>(it, lg). remaining it, \<lambda>(it, lg). size it]")
qed (auto dest: next_item_remaining [OF _ sym])

declare next_item.simps [simp del]




section \<open>Memoization layer, asynchronous\<close>

text \<open>
  A Future (a \<^verbatim>\<open>Promise\<close>) is identified by a number: the future created by the
  \<open>p\<close>-th invocation of \<^verbatim>\<open>fn\<close> (counting from 0) is \<open>p\<close>, so a fresh future is
  the length of the log. \<^verbatim>\<open>fn\<close> returns a future or a value that
  \<^verbatim>\<open>Promise.resolve\<close> wraps in one; that it may instead throw before returning is not
  modelled.

  The synchronous section of the generator of \<^verbatim>\<open>memoizeAsync\<close>, from the moment
  \<^verbatim>\<open>for await\<close> hands it \<open>item\<close> to the moment it suspends in \<^verbatim>\<open>yield\<close>: it returns the
  future it is about to await, the cache (\<open>cache_map\<close>) and the log of the arguments
  \<^verbatim>\<open>fn\<close> has been invoked on (\<open>invoked\<close>). There is no \<^verbatim>\<open>await\<close> inside this
  section, so no other task runs in between.
\<close>

definition memoizeAsync_body ::
  "(jsval \<Rightarrow> jsval) option \<Rightarrow> jsval \<Rightarrow> (jsval \<rightharpoonup> nat) \<times> jsval list
     \<Rightarrow> nat \<times> (jsval \<rightharpoonup> nat) \<times> jsval list" where
  "memoizeAsync_body keySelector item st =
     (case st of
        (cache_map, invoked) \<Rightarrow>
          (let key = memo_key keySelector item
           in case cache_map key of
                Some cached \<Rightarrow> (cached, cache_map, invoked)
              | None \<Rightarrow>
                  (let promise = length invoked
                   in (promise, cache_map(key \<mapsto> promise), invoked @ [item]))))"

text \<open>
  One traversal of the memoized sequence is a task, suspended at one of the two
  \<^verbatim>\<open>await\<close> points of the generator: in \<^verbatim>\<open>for await\<close>, waiting for the next item
  (\<open>Pulling\<close>: the items not yet delivered, and the futures handed to this traversal so
  far, each with its item), or in \<^verbatim>\<open>yield\<close>, waiting for a future to settle
  (\<open>Awaiting\<close>: the item and its future, then as before).
\<close>

datatype task =
    Pulling "jsval list" "(jsval \<times> nat) list"
  | Awaiting jsval nat "jsval list" "(jsval \<times> nat) list"

fun handed :: "task \<Rightarrow> (jsval \<times> nat) list" where
  "handed (Pulling rest out) = out"
| "handed (Awaiting item promise rest out) = out @ [(item, promise)]"

text \<open>
  The memoized sequence with the traversals running over it: the cache and the log of
  invocations, shared by all traversals, the set of the futures that have settled, and
  the tasks.
\<close>

record async_state =
  acache :: "jsval \<rightharpoonup> nat"
  acalls :: "jsval list"
  settled :: "nat set"
  tasks :: "task list"

definition initial :: async_state where
  "initial = \<lparr>acache = Map.empty, acalls = [], settled = {}, tasks = []\<rparr>"

text \<open>
  The moves of the event loop; a move that is not enabled leaves the state as it is.
  \<open>start_traversal\<close>: a consumer begins a new traversal. \<open>deliver i\<close>: task \<open>i\<close>,
  waiting for an item, receives the next one and runs the synchronous section up to
  \<^verbatim>\<open>yield\<close>.
  \<open>settle p\<close>: the future \<open>p\<close> settles. \<open>resume i\<close>: task \<open>i\<close>, whose awaited future
  has settled, hands the result to its consumer, which asks for the next item.
\<close>

definition start_traversal :: "jsval list \<Rightarrow> async_state \<Rightarrow> async_state" where
  "start_traversal items s = s\<lparr>tasks := tasks s @ [Pulling items []]\<rparr>"

definition deliver :: "(jsval \<Rightarrow> jsval) option \<Rightarrow> nat \<Rightarrow> async_state \<Rightarrow> async_state" where
  "deliver keySelector i s =
     (if i < length (tasks s)
      then (case tasks s ! i of
              Pulling pending out \<Rightarrow>
                (case pending of
                   [] \<Rightarrow> s
                 | item # rest \<Rightarrow>
                     (case memoizeAsync_body keySelector item (acache s, acalls s) of
                        (promise, cache', calls') \<Rightarrow>
                          s\<lparr>acache := cache', acalls := calls',
                            tasks := (tasks s)[i := Awaiting item promise rest out]\<rparr>))
            | Awaiting item promise rest out \<Rightarrow> s)
      else s)"

definition settle :: "nat \<Rightarrow> async_state \<Rightarrow> async_state" where
  "settle p s = (if p < length (acalls s) then s\<lparr>settled := insert p (settled s)\<rparr> else s)"

definition resume :: "nat \<Rightarrow> async_state \<Rightarrow> async_state" where
  "resume i s =
     (if i < length (tasks s)
      then (case tasks s ! i of
              Pulling pending out \<Rightarrow> s
            | Awaiting item promise rest out \<Rightarrow>
                if promise \<in> settled s
                then s\<lparr>tasks := (tasks s)[i := Pulling rest (out @ [(item, promise)])]\<rparr>
                else s)
      else s)"

text \<open>
  The states that any cooperative interleaving of any number of traversals of the
  memoized sequence can reach. Each traversal is started with the list of the items that
  \<^verbatim>\<open>for await\<close> will hand it, whatever that list is: all the items of an array for every
  traversal, or the share that a traversal gets of one generator object that several
  traversals pull from.
\<close>

inductive reachable :: "(jsval \<Rightarrow> jsval) option \<Rightarrow> async_state \<Rightarrow> bool"
  for keySelector :: "(jsval \<Rightarrow> jsval) option" where
  reach_initial: "reachable keySelector initial"
| reach_start: "reachable keySelector s \<Longrightarrow> reachable keySelector (start_traversal items s)"
| reach_deliver: "reachable keySelector s \<Longrightarrow> reachable keySelector (deliver keySelector i s)"
| reach_settle: "reachable keySelector s \<Longrightarrow> reachable keySelector (settle p s)"
| reach_resume: "reachable keySelector s \<Longrightarrow> reachable keySelector (resume i s)"

text \<open>
  Two traversals of the memoized sequence over \<open>[7, 7]\<close>: both have received their first
  item while the future of the first invocation is still pending.
\<close>

definition two_traversals :: async_state where
  "two_traversals =
     deliver None 1
       (deliver None 0
          (start_traversal [JNum 7, JNum 7] (start_traversal [JNum 7, JNum 7] initial)))"

text \<open>
  Two traversals of a sequence memoized with the key selector \<^verbatim>\<open>o => o.id\<close> over an array
  of two different objects with the same \<^verbatim>\<open>id\<close>: the first traversal has received the
  first object, then the second traversal has received it too, then the future has
  settled and the first traversal has gone on to receive the second object.
\<close>

definition same_id_objects :: "jsval list" where
  "same_id_objects =
     [JObj 1 [(''id'', JNum 1), (''name'', JStr ''a'')],
      JObj 2 [(''id'', JNum 1), (''name'', JStr ''c'')]]"

definition two_traversals_by_id :: async_state where
  "two_traversals_by_id =
     deliver (Some (get_prop ''id'')) 0
       (resume 0
          (settle 0
             (deliver (Some (get_prop ''id'')) 1
                (deliver (Some (get_prop ''id'')) 0
                   (start_traversal same_id_objects
                      (start_traversal same_id_objects initial))))))"

text \<open>
  The invariant of the shared cache, in three parts: a cached future is the one created
  by the invocation of \<^verbatim>\<open>fn\<close> on an item with that key; the future of every invocation
  is cached under the key of its argument; every future handed to a task is the cached
  one for the key of its item.
\<close>

definition inv1 :: "(jsval \<Rightarrow> jsval) option \<Rightarrow> async_state \<Rightarrow> bool" where
  "inv1 ks s \<longleftrightarrow>
     (\<forall>k p. acache s k = Some p \<longrightarrow> p < length (acalls s) \<and> memo_key ks (acalls s ! p) = k)"

definition inv2 :: "(jsval \<Rightarrow> jsval) option \<Rightarrow> async_state \<Rightarrow> bool" where
  "inv2 ks s \<longleftrightarrow> (\<forall>i<length (acalls s). acache s (memo_key ks (acalls s ! i)) = Some i)"

definition inv3 :: "(jsval \<Rightarrow> jsval) option \<Rightarrow> async_state \<Rightarrow> bool" where
  "inv3 ks s \<longleftrightarrow>
     (\<forall>t item p. t \<in> set (tasks s) \<longrightarrow> (item, p) \<in> set (handed t) \<longrightarrow>
        acache s (memo_key ks item) = Some p)"

section \<open>Theorems\<close>

subsection \<open>Empty-sequence policy of the terminals\<close>

lemma iterator_empty: "iterator empty = Inr []"
  by (simp add: iterator_def empty_def generator_def)

text \<open>
  C6. On the empty sequence \<^verbatim>\<open>first\<close> returns \<^verbatim>\<open>undefined\<close>, \<^verbatim>\<open>count\<close>,
  \<^verbatim>\<open>sum\<close> and \<^verbatim>\<open>average\<close> return 0, \<^verbatim>\<open>max\<close> and \<^verbatim>\<open>min\<close> return
  \<^verbatim>\<open>undefined\<close>, \<^verbatim>\<open>all(p)\<close> returns true, \<^verbatim>\<open>any()\<close> and \<^verbatim>\<open>any(p)\<close> return false
  and \<^verbatim>\<open>contains\<close> returns false; none of them throws.
\<close>

theorem empty_sequence_policy:
  "first empty predicate = Inr None
   \<and> count_seq empty predicate = Inr 0
   \<and> sum_seq toNumber empty selector = Inr (Num 0)
   \<and> average toNumber empty selector = Inr (Num 0)
   \<and> max_seq empty = Inr None
   \<and> min_seq empty = Inr None
   \<and> all_seq empty p = Inr True
   \<and> any_seq empty None = Inr False
   \<and> any_seq empty (Some p) = Inr False
   \<and> contains empty v = Inr False"
  by (simp add: first_def count_seq_def sum_seq_def average_def max_seq_def min_seq_def
      all_seq_def any_seq_def contains_def iterator_empty)

subsection \<open>Synchronous pull on an asynchronous-only sequence\<close>

text \<open>
  When the wrapped object has no \<^verbatim>\<open>[Symbol.iterator]\<close> method (an asynchronous-only
  source, such as the one \<^verbatim>\<open>memoizeAsync\<close> builds), the synchronous pull throws at once
  an \<^verbatim>\<open>Error\<close> whose message is "This enumerable is async - use for await or
  toArrayAsync()" (with an em dash, here its three UTF-8 bytes), and the terminals hand
  that error to their caller unchanged. Over \<^verbatim>\<open>Enumerable.from(items)\<close> the pull returns the
  items and does not throw.
\<close>

lemma sync_pull_of_wrapper:
  "Symbol_iterator src = None \<Longrightarrow> iterator (Enumerable src) = Inl (Error async_message)"
  "Symbol_iterator src = None \<Longrightarrow> toArray (Enumerable src) = Inl (Error async_message)"
  "Symbol_iterator src = None \<Longrightarrow> first (Enumerable src) predicate = Inl (Error async_message)"
  "Symbol_iterator src = None \<Longrightarrow> count_seq (Enumerable src) predicate = Inl (Error async_message)"
  "Symbol_iterator src = None \<Longrightarrow> contains (Enumerable src) v = Inl (Error async_message)"
  "iterator (Enumerable (async_only_source items)) = Inl (Error async_message)"
  "iterator (from_seq items) = Inr items"
  by (simp_all add: iterator_def toArray_def first_def count_seq_def contains_def from_seq_def
      sync_source_def async_only_source_def)

lemma async_message_text:
  "async_message =
     ''This enumerable is async '' @ [CHR 0xE2, CHR 0x80, CHR 0x94]
       @ '' use for await or toArrayAsync()''"
  by (simp add: async_message_def)

text \<open>
  A stage derived from an asynchronous-only sequence is a generator whose body starts with
  \<^verbatim>\<open>for (const item of self)\<close>, or with \<^verbatim>\<open>Array.from(self)\<close> in \<^verbatim>\<open>orderByDescending\<close>: the
  synchronous pull of the stage throws the same error. \<^verbatim>\<open>orderBy\<close> is the exception: it
  reads the wrapped object with \<^verbatim>\<open>Array.from(self.iterable)\<close>, which finds neither a
  \<^verbatim>\<open>[Symbol.iterator]\<close> method nor a \<^verbatim>\<open>length\<close>, and the stage yields nothing.
\<close>

lemma stage_over_async_only_source:
  "iterator (distinct_seq (Enumerable (async_only_source xs))) = Inl (Error async_message)"
  "iterator (distinctBy (Enumerable (async_only_source xs)) keySelector)
     = Inl (Error async_message)"
  "iterator (orderByDescending (Enumerable (async_only_source xs)) selector)
     = Inl (Error async_message)"
  by (simp_all add: iterator_def distinct_seq_def distinctBy_def orderByDescending_def
      generator_def async_only_source_def)

lemma orderBy_async_only_source:
  "iterator (orderBy (Enumerable (async_only_source xs)) selector) = Inr []"
  by (simp add: iterator_def orderBy_def generator_def async_only_source_def Array_from_def
      orderBy_sort.simps)

text \<open>
  C8. The sequence \<^verbatim>\<open>new Enumerable(asyncGen())\<close> over an asynchronous generator that
  yields 2 and 1 is built from an asynchronous-only source, and so is the sequence
  \<^verbatim>\<open>orderBy(x => x)\<close> derived from it. A synchronous pull of the former, and of its
  \<^verbatim>\<open>orderByDescending(x => x)\<close>, throws the error; a synchronous pull of its
  \<^verbatim>\<open>orderBy(x => x)\<close>, by \<^verbatim>\<open>toArray()\<close> or by \<^verbatim>\<open>count()\<close>, throws nothing and reports an
  empty sequence.
\<close>

theorem orderBy_async_only_no_error:
  "toArray (Enumerable (async_only_source [Num 2, Num 1])) = Inl (Error async_message)
   \<and> toArray (orderByDescending (Enumerable (async_only_source [Num 2, Num 1])) (\<lambda>x. x))
       = Inl (Error async_message)
   \<and> toArray (orderBy (Enumerable (async_only_source [Num 2, Num 1])) (\<lambda>x. x)) = Inr []
   \<and> count_seq (orderBy (Enumerable (async_only_source [Num 2, Num 1])) (\<lambda>x. x)) None = Inr 0"
  by (simp add: toArray_def count_seq_def sync_pull_of_wrapper stage_over_async_only_source
      orderBy_async_only_source)

subsection \<open>\<^verbatim>\<open>range\<close>\<close>

lemma range_loop_eq:
  "range_loop add start n i arr = arr @ map (\<lambda>j. add start (Num (real j))) [i..<n]"
proof (induction add start n i arr rule: range_loop.induct)
  case (1 add start cnt i arr)
  show ?case
  proof (cases "i < cnt")
    case True
    with "1" show ?thesis
      by (subst range_loop.simps) (simp add: upt_conv_Cons)
  next
    case False
    then show ?thesis by (subst range_loop.simps) simp
  qed
qed

text \<open>
  C9, as amended. Whatever \<^verbatim>\<open>start\<close> is, and whatever the engine's addition does: a
  negative count makes \<^verbatim>\<open>range\<close> throw \<^verbatim>\<open>RangeError: Invalid array length\<close> at call
  time; an integer count \<open>n\<close> with \<open>0 \<le> n < 2^32\<close> returns the materialized array of the
  \<open>n\<close> sums \<^verbatim>\<open>start + 0\<close>, \<^verbatim>\<open>start + 1\<close>, ..., \<^verbatim>\<open>start + (n - 1)\<close>, each as the engine's
  addition gives it; a count of \<open>2^32\<close> or more, and a count that is not an integer, throw
  the same \<^verbatim>\<open>RangeError\<close>.
\<close>

theorem range_contract:
  "(js_lt cnt (Num 0) \<longrightarrow> range add start cnt = Inl (RangeError ''Invalid array length''))
   \<and> (n < 2 ^ 32 \<longrightarrow>
        range add start (Num (real n))
          = Inr (from_seq (map (\<lambda>i. add start (Num (real i))) [0..<n])))
   \<and> (2 ^ 32 \<le> c \<longrightarrow> range add start (Num c) = Inl (RangeError ''Invalid array length''))
   \<and> (d \<noteq> of_int \<lfloor>d\<rfloor> \<longrightarrow> range add start (Num d) = Inl (RangeError ''Invalid array length''))"
proof (intro conjI impI)
  assume "js_lt cnt (Num 0)"
  then show "range add start cnt = Inl (RangeError ''Invalid array length'')"
    by (cases cnt) (simp_all add: range_def valid_array_length_def)
next
  assume "n < 2 ^ 32"
  then have "real n < 2 ^ 32"
    by (metis of_nat_less_iff of_nat_numeral of_nat_power)
  then show "range add start (Num (real n))
      = Inr (from_seq (map (\<lambda>i. add start (Num (real i))) [0..<n]))"
    by (simp add: range_def valid_array_length_def range_loop_eq from_seq_def)
next
  assume "2 ^ 32 \<le> c"
  then show "range add start (Num c) = Inl (RangeError ''Invalid array length'')"
    by (simp add: range_def valid_array_length_def)
next
  assume "d \<noteq> of_int \<lfloor>d\<rfloor>"
  then show "range add start (Num d) = Inl (RangeError ''Invalid array length'')"
    by (simp add: range_def valid_array_length_def)
qed

text \<open>
  \<^verbatim>\<open>range(1, -1)\<close>, \<^verbatim>\<open>range(1, 3)\<close>, \<^verbatim>\<open>range(1, 4294967296)\<close> and \<^verbatim>\<open>range(1, 1.5)\<close>;
  the sums \<open>1 + 0\<close>, \<open>1 + 1\<close> and \<open>1 + 2\<close> are exact in doubles.
\<close>

theorem range_contract_witness:
  "range num_add (Num 1) (Num (-1)) = Inl (RangeError ''Invalid array length'')
   \<and> range num_add (Num 1) (Num 3) = Inr (from_seq [Num 1, Num 2, Num 3])
   \<and> range num_add (Num 1) (Num (2 ^ 32)) = Inl (RangeError ''Invalid array length'')
   \<and> range num_add (Num 1) (Num (3 / 2)) = Inl (RangeError ''Invalid array length'')"
  using range_contract [of "Num (-1)" num_add "Num 1" 3 "2 ^ 32" "3 / 2"]
  by (simp add: upt_rec)

text \<open>
  The count \<open>2^32\<close> is not negative, and \<^verbatim>\<open>range(0, 4294967296)\<close> throws instead of
  materializing.
\<close>

theorem range_large_count_counterexample:
  "\<not> js_lt (Num 4294967296) (Num 0)
   \<and> range num_add (Num 0) (Num 4294967296) = Inl (RangeError ''Invalid array length'')"
  by (simp add: range_def valid_array_length_def)

subsection \<open>\<^verbatim>\<open>union\<close>\<close>

lemma union_loop_eq:
  "union_loop ks seen xs =
     (first_seen_dedup (key_of ks) (filter (\<lambda>x. key_of ks x \<notin> seen) xs),
      seen \<union> key_of ks ` set xs)"
proof (induction xs arbitrary: seen)
  case Nil
  then show ?case by simp
next
  case (Cons x xs)
  have k: "(case ks of Some f \<Rightarrow> f x | None \<Rightarrow> x) = key_of ks x"
    by (simp add: key_of_def)
  have f: "filter (\<lambda>y. key_of ks y \<noteq> key_of ks x) (filter (\<lambda>y. key_of ks y \<notin> seen) xs)
      = filter (\<lambda>y. key_of ks y \<notin> insert (key_of ks x) seen) xs"
    by (auto intro: filter_cong)
  show ?case
  proof (cases "key_of ks x \<in> seen")
    case True
    then show ?thesis using Cons.IH [of seen] by (auto simp: k)
  next
    case False
    then show ?thesis using Cons.IH [of "insert (key_of ks x) seen"]
      by (simp add: k Let_def conj_commute)
  qed
qed

lemma first_seen_dedup_filter:
  assumes resp: "\<And>x y. key x = key y \<Longrightarrow> P x = P y"
  shows "filter P (first_seen_dedup key xs) = first_seen_dedup key (filter P xs)"
proof (induction xs rule: length_induct)
  case (1 xs)
  show ?case
  proof (cases xs)
    case Nil
    then show ?thesis by simp
  next
    case (Cons x rest)
    let ?rest' = "filter (\<lambda>y. key y \<noteq> key x) rest"
    have "length ?rest' < length xs"
      using Cons by (simp add: le_imp_less_Suc)
    then have ih: "filter P (first_seen_dedup key ?rest') = first_seen_dedup key (filter P ?rest')"
      using "1.IH" by blast
    have c: "filter P ?rest' = filter (\<lambda>y. key y \<noteq> key x) (filter P rest)"
      by (simp add: conj_commute)
    show ?thesis
    proof (cases "P x")
      case True
      then show ?thesis by (simp only: Cons first_seen_dedup.simps filter.simps if_True ih c)
    next
      case False
      have "\<And>y. P y \<Longrightarrow> key y \<noteq> key x"
        using resp False by blast
      then have "filter (\<lambda>y. key y \<noteq> key x) (filter P rest) = filter P rest"
        by (intro filter_True) simp
      then show ?thesis
        using False by (simp only: Cons first_seen_dedup.simps filter.simps if_False ih c)
    qed
  qed
qed

lemma first_seen_dedup_append:
  "first_seen_dedup key (xs @ ys) =
     first_seen_dedup key xs @ first_seen_dedup key (filter (\<lambda>y. key y \<notin> key ` set xs) ys)"
proof (induction key xs arbitrary: ys rule: first_seen_dedup.induct)
  case (1 key)
  then show ?case by simp
next
  case (2 key x xs)
  have "filter (\<lambda>y. key y \<notin> key ` set (filter (\<lambda>y. key y \<noteq> key x) xs)) (filter (\<lambda>y. key y \<noteq> key x) ys)
      = filter (\<lambda>y. key y \<notin> key ` set (x # xs)) ys"
    by (auto intro!: filter_cong)
  then show ?case using 2 [of "filter (\<lambda>y. key y \<noteq> key x) ys"] by simp
qed

text \<open>
  C5. \<^verbatim>\<open>self.union(other, keySelector?)\<close> yields the first-seen-order deduplication of
  \<open>self\<close> followed by \<open>other\<close>, that is, the distinct elements of \<open>self\<close> followed by the
  distinct elements of \<open>other\<close> whose key was not seen in \<open>self\<close>; two elements are
  equivalent when their keys are equal, and the key is the element itself when no
  \<^verbatim>\<open>keySelector\<close> is given.
\<close>

theorem union_first_seen_dedup:
  "iterator (union_seq (from_seq self) (from_seq other) keySelector)
     = Inr (first_seen_dedup (key_of keySelector) (self @ other))
   \<and> first_seen_dedup (key_of keySelector) (self @ other)
     = first_seen_dedup (key_of keySelector) self
       @ filter (\<lambda>y. key_of keySelector y \<notin> key_of keySelector ` set self)
           (first_seen_dedup (key_of keySelector) other)
   \<and> key_of None = (\<lambda>item. item)
   \<and> key_of (Some f) = f"
proof (intro conjI)
  have u: "union_loop keySelector {} self
      = (first_seen_dedup (key_of keySelector) self, key_of keySelector ` set self)"
    by (simp add: union_loop_eq)
  have v: "union_loop keySelector (key_of keySelector ` set self) other
      = (first_seen_dedup (key_of keySelector)
           (filter (\<lambda>y. key_of keySelector y \<notin> key_of keySelector ` set self) other),
         key_of keySelector ` set self \<union> key_of keySelector ` set other)"
    by (rule union_loop_eq)
  show "iterator (union_seq (from_seq self) (from_seq other) keySelector)
     = Inr (first_seen_dedup (key_of keySelector) (self @ other))"
    by (simp add: iterator_def union_seq_def generator_def from_seq_def sync_source_def u v
        first_seen_dedup_append)
  have "filter (\<lambda>y. key_of keySelector y \<notin> key_of keySelector ` set self)
           (first_seen_dedup (key_of keySelector) other)
      = first_seen_dedup (key_of keySelector)
          (filter (\<lambda>y. key_of keySelector y \<notin> key_of keySelector ` set self) other)"
    by (rule first_seen_dedup_filter) simp
  then show "first_seen_dedup (key_of keySelector) (self @ other)
     = first_seen_dedup (key_of keySelector) self
       @ filter (\<lambda>y. key_of keySelector y \<notin> key_of keySelector ` set self)
           (first_seen_dedup (key_of keySelector) other)"
    by (simp only: first_seen_dedup_append)
  show "key_of None = (\<lambda>item. item)" by (simp add: key_of_def fun_eq_iff)
  show "key_of (Some f) = f" by (simp add: key_of_def fun_eq_iff)
qed

theorem union_first_seen_dedup_witness:
  "iterator (union_seq (from_seq [1::nat, 2, 2, 3]) (from_seq [3, 4, 4, 5]) None)
     = Inr [1, 2, 3, 4, 5]
   \<and> iterator (union_seq (from_seq [1::nat, 2, 2, 3]) (from_seq [3, 4, 4, 5]) (Some (\<lambda>n. n mod 3)))
     = Inr [1, 2, 3]"
proof -
  have a: "iterator (union_seq (from_seq [1::nat, 2, 2, 3]) (from_seq [3, 4, 4, 5]) None)
      = Inr (first_seen_dedup (key_of None) ([1, 2, 2, 3] @ [3, 4, 4, 5]))"
    using union_first_seen_dedup [of "[1::nat, 2, 2, 3]" "[3, 4, 4, 5]" None] by (rule conjunct1)
  have b: "iterator (union_seq (from_seq [1::nat, 2, 2, 3]) (from_seq [3, 4, 4, 5])
        (Some (\<lambda>n. n mod 3)))
      = Inr (first_seen_dedup (key_of (Some (\<lambda>n. n mod 3))) ([1, 2, 2, 3] @ [3, 4, 4, 5]))"
    using union_first_seen_dedup [of "[1::nat, 2, 2, 3]" "[3, 4, 4, 5]" "Some (\<lambda>n. n mod 3)"]
    by (rule conjunct1)
  show ?thesis
    unfolding a b by (simp add: key_of_def)
qed

subsection \<open>\<^verbatim>\<open>memoize\<close>: one invocation per distinct key\<close>

lemma miss_simps:
  "cache (miss fn ks x m) = (cache m)(memo_key ks x \<mapsto> fn x)"
  "calls (miss fn ks x m) = calls m @ [x]"
  "dom (cache (miss fn ks x m)) = insert (memo_key ks x) (dom (cache m))"
  by (simp_all add: miss_def)

lemma memoize_loop_hit:
  "cache m (memo_key ks x) = Some w \<Longrightarrow>
   memoize_loop fn ks (x # xs) m =
     (w # fst (memoize_loop fn ks xs m), snd (memoize_loop fn ks xs m))"
  by (simp add: split_beta)

lemma memoize_loop_miss:
  "cache m (memo_key ks x) = None \<Longrightarrow>
   memoize_loop fn ks (x # xs) m =
     (fn x # fst (memoize_loop fn ks xs (miss fn ks x m)),
      snd (memoize_loop fn ks xs (miss fn ks x m)))"
  by (simp add: split_beta Let_def miss_def)

lemma memoize_loop_calls:
  "calls (snd (memoize_loop fn ks items m)) =
     calls m @ first_seen_dedup (memo_key ks)
                 (filter (\<lambda>x. memo_key ks x \<notin> dom (cache m)) items)"
proof (induction items arbitrary: m)
  case Nil
  then show ?case by simp
next
  case (Cons x xs)
  show ?case
  proof (cases "cache m (memo_key ks x)")
    case None
    have nd: "memo_key ks x \<notin> dom (cache m)" using None by (simp add: domIff)
    have f: "filter (\<lambda>y. memo_key ks y \<notin> dom (cache (miss fn ks x m))) xs
        = filter (\<lambda>y. memo_key ks y \<noteq> memo_key ks x)
            (filter (\<lambda>y. memo_key ks y \<notin> dom (cache m)) xs)"
      by (auto simp: miss_simps intro!: filter_cong)
    have "calls (snd (memoize_loop fn ks (x # xs) m))
        = calls (snd (memoize_loop fn ks xs (miss fn ks x m)))"
      by (simp only: memoize_loop_miss [OF None] snd_conv)
    also have "\<dots> = (calls m @ [x]) @ first_seen_dedup (memo_key ks)
          (filter (\<lambda>y. memo_key ks y \<noteq> memo_key ks x)
            (filter (\<lambda>y. memo_key ks y \<notin> dom (cache m)) xs))"
      by (simp only: Cons.IH f miss_simps(2))
    also have "\<dots> = calls m @ first_seen_dedup (memo_key ks)
          (filter (\<lambda>x. memo_key ks x \<notin> dom (cache m)) (x # xs))"
      using nd by simp
    finally show ?thesis .
  next
    case (Some v)
    then have "memo_key ks x \<in> dom (cache m)" by (simp add: domI)
    then show ?thesis
      by (simp add: memoize_loop_hit [OF Some] Cons.IH del: memoize_loop.simps)
  qed
qed

lemma memoize_loop_dom:
  "dom (cache (snd (memoize_loop fn ks items m))) = dom (cache m) \<union> memo_key ks ` set items"
proof (induction items arbitrary: m)
  case Nil
  then show ?case by simp
next
  case (Cons x xs)
  show ?case
  proof (cases "cache m (memo_key ks x)")
    case None
    show ?thesis
      by (simp only: memoize_loop_miss [OF None] snd_conv Cons.IH miss_simps) auto
  next
    case (Some v)
    then have "memo_key ks x \<in> dom (cache m)" by (simp add: domI)
    then show ?thesis
      by (simp only: memoize_loop_hit [OF Some] snd_conv Cons.IH) auto
  qed
qed

lemma memoize_loop_keeps:
  "cache m k = Some v \<Longrightarrow> cache (snd (memoize_loop fn ks items m)) k = Some v"
proof (induction items arbitrary: m)
  case Nil
  then show ?case by simp
next
  case (Cons x xs)
  show ?case
  proof (cases "cache m (memo_key ks x)")
    case None
    let ?m1 = "miss fn ks x m"
    have "k \<noteq> memo_key ks x" using None Cons.prems by auto
    then have "cache ?m1 k = Some v" using Cons.prems by (simp add: miss_simps)
    then have "cache (snd (memoize_loop fn ks xs ?m1)) k = Some v" by (rule Cons.IH)
    then show ?thesis by (simp only: memoize_loop_miss [OF None] snd_conv)
  next
    case (Some w)
    then show ?thesis using Cons.IH [OF Cons.prems] by (simp only: memoize_loop_hit snd_conv)
  qed
qed

lemma memoize_loop_yields:
  "fst (memoize_loop fn ks items m) =
     map (\<lambda>x. the (cache (snd (memoize_loop fn ks items m)) (memo_key ks x))) items"
proof (induction items arbitrary: m)
  case Nil
  then show ?case by simp
next
  case (Cons x xs)
  show ?case
  proof (cases "cache m (memo_key ks x)")
    case None
    let ?m1 = "miss fn ks x m"
    have "cache ?m1 (memo_key ks x) = Some (fn x)" by (simp add: miss_simps)
    then have "cache (snd (memoize_loop fn ks xs ?m1)) (memo_key ks x) = Some (fn x)"
      by (rule memoize_loop_keeps)
    then show ?thesis using Cons.IH [of ?m1]
      by (simp only: memoize_loop_miss [OF None] snd_conv fst_conv list.map option.sel)
  next
    case (Some w)
    then have "cache (snd (memoize_loop fn ks xs m)) (memo_key ks x) = Some w"
      by (rule memoize_loop_keeps)
    then show ?thesis using Cons.IH [of m]
      by (simp only: memoize_loop_hit [OF Some] snd_conv fst_conv list.map option.sel)
  qed
qed

lemma memoize_loop_first_result:
  "k \<notin> dom (cache m) \<Longrightarrow> k \<in> memo_key ks ` set items \<Longrightarrow>
   cache (snd (memoize_loop fn ks items m)) k
     = Some (fn (the (find (\<lambda>c. memo_key ks c = k) items)))"
proof (induction items arbitrary: m)
  case Nil
  then show ?case by simp
next
  case (Cons x xs)
  show ?case
  proof (cases "cache m (memo_key ks x)")
    case None
    let ?m1 = "miss fn ks x m"
    show ?thesis
    proof (cases "memo_key ks x = k")
      case True
      have "cache ?m1 k = Some (fn x)" using True by (simp add: miss_simps)
      then have "cache (snd (memoize_loop fn ks xs ?m1)) k = Some (fn x)"
        by (rule memoize_loop_keeps)
      moreover have "find (\<lambda>c. memo_key ks c = k) (x # xs) = Some x"
        using True by simp
      ultimately show ?thesis
        by (simp only: memoize_loop_miss [OF None] snd_conv option.sel)
    next
      case False
      then have "k \<notin> dom (cache ?m1)" "k \<in> memo_key ks ` set xs"
        using Cons.prems by (auto simp: miss_simps)
      then have "cache (snd (memoize_loop fn ks xs ?m1)) k
          = Some (fn (the (find (\<lambda>c. memo_key ks c = k) xs)))"
        by (rule Cons.IH)
      moreover have "find (\<lambda>c. memo_key ks c = k) (x # xs) = find (\<lambda>c. memo_key ks c = k) xs"
        using False by simp
      ultimately show ?thesis
        by (simp only: memoize_loop_miss [OF None] snd_conv)
    qed
  next
    case (Some w)
    then have ne: "memo_key ks x \<noteq> k" using Cons.prems(1) by auto
    then have "k \<in> memo_key ks ` set xs" using Cons.prems(2) by auto
    with Cons.prems(1) have "cache (snd (memoize_loop fn ks xs m)) k
          = Some (fn (the (find (\<lambda>c. memo_key ks c = k) xs)))"
      by (rule Cons.IH)
    moreover have "find (\<lambda>c. memo_key ks c = k) (x # xs) = find (\<lambda>c. memo_key ks c = k) xs"
      using ne by simp
    ultimately show ?thesis
      by (simp only: memoize_loop_hit [OF Some] snd_conv)
  qed
qed

lemma memoize_loop_cached:
  "memo_key ks ` set items \<subseteq> dom (cache m) \<Longrightarrow>
   memoize_loop fn ks items m = (map (\<lambda>x. the (cache m (memo_key ks x))) items, m)"
proof (induction items)
  case Nil
  then show ?case by simp
next
  case (Cons x xs)
  then obtain w where "cache m (memo_key ks x) = Some w" by auto
  then show ?case using Cons by (simp add: memoize_loop_hit del: memoize_loop.simps)
qed

lemma length_first_seen_dedup:
  "length (first_seen_dedup key xs) = card (key ` set xs)"
proof (induction key xs rule: first_seen_dedup.induct)
  case (1 key)
  then show ?case by simp
next
  case (2 key x xs)
  have "key ` set (x # xs) = insert (key x) (key ` set (filter (\<lambda>y. key y \<noteq> key x) xs))"
    by auto
  moreover have "key x \<notin> key ` set (filter (\<lambda>y. key y \<noteq> key x) xs)"
    by auto
  ultimately have "card (key ` set (x # xs)) = Suc (card (key ` set (filter (\<lambda>y. key y \<noteq> key x) xs)))"
    by simp
  then show ?case using 2 by simp
qed

lemma traversals_cached:
  "memo_key ks ` set items \<subseteq> dom (cache m) \<Longrightarrow>
   traversals fn ks (Reiterable items) n m
     = (replicate n (map (\<lambda>x. the (cache m (memo_key ks x))) items), m)"
  by (induction n) (simp_all add: memoize_loop_cached)

lemma traversals_exhausted:
  "traversals fn ks (GeneratorObject []) n m = (replicate n [], m)"
  by (induction n) simp_all

lemma first_traversal:
  "memoize_loop fn ks items new_memo =
     (map (\<lambda>x. fn (the (find (\<lambda>c. memo_key ks c = memo_key ks x) items))) items,
      snd (memoize_loop fn ks items new_memo))"
proof -
  let ?m1 = "snd (memoize_loop fn ks items new_memo)"
  have "\<And>x. x \<in> set items \<Longrightarrow>
      cache ?m1 (memo_key ks x) = Some (fn (the (find (\<lambda>c. memo_key ks c = memo_key ks x) items)))"
    by (rule memoize_loop_first_result) (simp_all add: new_memo_def)
  then have "map (\<lambda>x. the (cache ?m1 (memo_key ks x))) items
      = map (\<lambda>x. fn (the (find (\<lambda>c. memo_key ks c = memo_key ks x) items))) items"
    by simp
  then have "fst (memoize_loop fn ks items new_memo)
      = map (\<lambda>x. fn (the (find (\<lambda>c. memo_key ks c = memo_key ks x) items))) items"
    by (simp only: memoize_loop_yields [of fn ks items new_memo])
  then show ?thesis by (simp add: prod_eq_iff)
qed

lemma traversals_reiterable:
  "traversals fn ks (Reiterable items) (Suc n) new_memo =
     (replicate (Suc n)
        (map (\<lambda>x. fn (the (find (\<lambda>c. memo_key ks c = memo_key ks x) items))) items),
      snd (memoize_loop fn ks items new_memo))"
proof -
  let ?m1 = "snd (memoize_loop fn ks items new_memo)"
  let ?out = "map (\<lambda>x. fn (the (find (\<lambda>c. memo_key ks c = memo_key ks x) items))) items"
  have "dom (cache ?m1) = memo_key ks ` set items"
    by (simp add: memoize_loop_dom new_memo_def)
  then have sub: "memo_key ks ` set items \<subseteq> dom (cache ?m1)"
    by simp
  have "\<And>x. x \<in> set items \<Longrightarrow>
      cache ?m1 (memo_key ks x) = Some (fn (the (find (\<lambda>c. memo_key ks c = memo_key ks x) items)))"
    by (rule memoize_loop_first_result) (simp_all add: new_memo_def)
  then have again: "map (\<lambda>x. the (cache ?m1 (memo_key ks x))) items = ?out"
    by simp
  show ?thesis
    apply (subst traversals.simps)
    apply (simp only: for_of.simps prod.case)
    apply (subst first_traversal)
    apply (simp only: prod.case traversals_cached [OF sub] again replicate.simps)
    done
qed

lemma traversals_generator:
  "traversals fn ks (GeneratorObject items) (Suc n) new_memo =
     (map (\<lambda>x. fn (the (find (\<lambda>c. memo_key ks c = memo_key ks x) items))) items
        # replicate n [],
      snd (memoize_loop fn ks items new_memo))"
  apply (subst traversals.simps)
  apply (simp only: for_of.simps prod.case)
  apply (subst first_traversal)
  apply (simp only: prod.case traversals_exhausted)
  done

lemma first_traversal_calls:
  "calls (snd (memoize_loop fn ks items new_memo)) = first_seen_dedup (memo_key ks) items"
  by (simp add: memoize_loop_calls new_memo_def)

text \<open>
  C2, as amended. The cache key of an item is what the caller's key selector returns for
  it and, without a key selector, its \<^verbatim>\<open>JSON.stringify\<close>. Take a memoized sequence with a
  fresh cache over an input that yields \<open>items\<close>, and traverse it fully once or more
  (\<open>Suc n\<close> times). Whatever the input is, \<^verbatim>\<open>fn\<close> is invoked over all the traversals on
  exactly the first occurrence of each key, in order: its number of invocations is the
  number of distinct keys. When the input can be iterated again, every traversal yields,
  in input order and with the input's length, for each item the result of \<^verbatim>\<open>fn\<close> on the
  first item of the input with the same key. When the input is a generator object, the
  first traversal yields that, and every later traversal yields nothing.
\<close>

theorem memoize_once_per_key:
  "memo_key (Some f) item = f item
   \<and> memo_key None item = JSON_stringify item
   \<and> calls (snd (traversals fn keySelector (Reiterable items) (Suc n) new_memo))
       = first_seen_dedup (memo_key keySelector) items
   \<and> calls (snd (traversals fn keySelector (GeneratorObject items) (Suc n) new_memo))
       = first_seen_dedup (memo_key keySelector) items
   \<and> length (calls (snd (traversals fn keySelector (Reiterable items) (Suc n) new_memo)))
       = card (memo_key keySelector ` set items)
   \<and> length (calls (snd (traversals fn keySelector (GeneratorObject items) (Suc n) new_memo)))
       = card (memo_key keySelector ` set items)
   \<and> fst (traversals fn keySelector (Reiterable items) (Suc n) new_memo)
       = replicate (Suc n)
           (map (\<lambda>x. fn (the (find (\<lambda>c. memo_key keySelector c = memo_key keySelector x) items)))
              items)
   \<and> map length (fst (traversals fn keySelector (Reiterable items) (Suc n) new_memo))
       = replicate (Suc n) (length items)
   \<and> fst (traversals fn keySelector (GeneratorObject items) (Suc n) new_memo)
       = map (\<lambda>x. fn (the (find (\<lambda>c. memo_key keySelector c = memo_key keySelector x) items)))
           items
         # replicate n []"
  by (simp only: traversals_reiterable traversals_generator fst_conv snd_conv
      first_traversal_calls length_first_seen_dedup map_replicate length_map simp_thms)
    (simp add: memo_key_def)

text \<open>
  The repository's test, \<^verbatim>\<open>from([1, 2, 3, 1, 2, 3]).memoize(n => n * n)\<close>, traversed twice;
  and three objects of which the first and the last have the same \<^verbatim>\<open>id\<close>, memoized on
  \<^verbatim>\<open>o => o.name\<close> with the key selector \<^verbatim>\<open>o => o.id\<close>, as an array and behind a generator:
  the last object is given the name computed for the first.
\<close>

theorem memoize_once_per_key_witness:
  "fst (traversals square None (Reiterable [JNum 1, JNum 2, JNum 3, JNum 1, JNum 2, JNum 3]) 2
          new_memo)
     = [[1, 4, 9, 1, 4, 9], [1, 4, 9, 1, 4, 9]]
   \<and> calls (snd (traversals square None
                   (Reiterable [JNum 1, JNum 2, JNum 3, JNum 1, JNum 2, JNum 3]) 2 new_memo))
     = [JNum 1, JNum 2, JNum 3]
   \<and> fst (traversals (get_prop ''name'') (Some (get_prop ''id''))
            (Reiterable
               [JObj 1 [(''id'', JNum 1), (''name'', JStr ''a'')],
                JObj 2 [(''id'', JNum 2), (''name'', JStr ''b'')],
                JObj 3 [(''id'', JNum 1), (''name'', JStr ''c'')]]) 2 new_memo)
     = [[JStr ''a'', JStr ''b'', JStr ''a''], [JStr ''a'', JStr ''b'', JStr ''a'']]
   \<and> calls (snd (traversals (get_prop ''name'') (Some (get_prop ''id''))
            (Reiterable
               [JObj 1 [(''id'', JNum 1), (''name'', JStr ''a'')],
                JObj 2 [(''id'', JNum 2), (''name'', JStr ''b'')],
                JObj 3 [(''id'', JNum 1), (''name'', JStr ''c'')]]) 2 new_memo))
     = [JObj 1 [(''id'', JNum 1), (''name'', JStr ''a'')],
        JObj 2 [(''id'', JNum 2), (''name'', JStr ''b'')]]
   \<and> fst (traversals (get_prop ''name'') (Some (get_prop ''id''))
            (GeneratorObject
               [JObj 1 [(''id'', JNum 1), (''name'', JStr ''a'')],
                JObj 2 [(''id'', JNum 2), (''name'', JStr ''b'')],
                JObj 3 [(''id'', JNum 1), (''name'', JStr ''c'')]]) 2 new_memo)
     = [[JStr ''a'', JStr ''b'', JStr ''a''], []]"
proof -
  have k: "memo_key None (JNum 1) = JStr ''1''" "memo_key None (JNum 2) = JStr ''2''"
    "memo_key None (JNum 3) = JStr ''3''"
    by (simp_all add: memo_key_def JSON_stringify_def Number_toString_def decimal.simps)
  have i: "\<And>v. memo_key (Some (get_prop ''id'')) v = get_prop ''id'' v"
    by (simp add: memo_key_def)
  note t1 = memoize_once_per_key
      [of "get_prop ''id''" "JNum 1" square None
        "[JNum 1, JNum 2, JNum 3, JNum 1, JNum 2, JNum 3]" 1]
  note t2 = memoize_once_per_key
      [of "get_prop ''id''" "JNum 1" "get_prop ''name''" "Some (get_prop ''id'')"
        "[JObj 1 [(''id'', JNum 1), (''name'', JStr ''a'')],
          JObj 2 [(''id'', JNum 2), (''name'', JStr ''b'')],
          JObj 3 [(''id'', JNum 1), (''name'', JStr ''c'')]]" 1]
  note calls1 = t1 [THEN conjunct2, THEN conjunct2, THEN conjunct1]
  note outs1 = t1 [THEN conjunct2, THEN conjunct2, THEN conjunct2, THEN conjunct2,
      THEN conjunct2, THEN conjunct2, THEN conjunct1]
  note calls2 = t2 [THEN conjunct2, THEN conjunct2, THEN conjunct1]
  note outs2 = t2 [THEN conjunct2, THEN conjunct2, THEN conjunct2, THEN conjunct2,
      THEN conjunct2, THEN conjunct2, THEN conjunct1]
  note gen2 = t2 [THEN conjunct2, THEN conjunct2, THEN conjunct2, THEN conjunct2,
      THEN conjunct2, THEN conjunct2, THEN conjunct2, THEN conjunct2]
  show ?thesis
    using calls1 outs1 calls2 outs2 gen2
    by (simp add: k i square_def numeral_2_eq_2 del: traversals.simps)
qed

text \<open>
  \<^verbatim>\<open>from([1, 2, 3]).select(x => x).memoize(n => n * n)\<close>, traversed twice: the input of the
  memoized sequence is the generator object of \<^verbatim>\<open>select\<close>, which yields 1, 2, 3. The
  second traversal yields nothing, so its output has not the length of the input.
\<close>

theorem memoize_generator_input_counterexample:
  "fst (traversals square None (GeneratorObject [JNum 1, JNum 2, JNum 3]) 2 new_memo)
     = [[1, 4, 9], []]
   \<and> map length (fst (traversals square None (GeneratorObject [JNum 1, JNum 2, JNum 3]) 2
                        new_memo))
     \<noteq> replicate 2 (length [JNum 1, JNum 2, JNum 3])"
proof -
  have k: "memo_key None (JNum 1) = JStr ''1''" "memo_key None (JNum 2) = JStr ''2''"
    "memo_key None (JNum 3) = JStr ''3''"
    by (simp_all add: memo_key_def JSON_stringify_def Number_toString_def decimal.simps)
  have "fst (traversals square None (GeneratorObject [JNum 1, JNum 2, JNum 3]) 2 new_memo)
     = [[1, 4, 9], []]"
    by (simp add: numeral_2_eq_2 traversals_generator k square_def del: traversals.simps)
  then show ?thesis by (simp add: numeral_2_eq_2 del: traversals.simps)
qed

subsection \<open>\<^verbatim>\<open>intersect\<close>, and the default key of the set-like operators\<close>

lemma intersect_loop_eq:
  "intersect_loop ks st xs = filter (\<lambda>x. key_of ks x \<in> st) xs"
  by (induction xs) (simp_all add: key_of_def Let_def)

lemma intersect_code:
  "iterator (intersect (from_seq self) (from_seq other) keySelector)
     = Inr (filter (\<lambda>x. key_of keySelector x \<in> set other) self)"
  by (simp add: iterator_def intersect_def generator_def from_seq_def sync_source_def toSet_def
      intersect_loop_eq)

lemma distinct_loop_eq:
  "distinct_loop seen xs = first_seen_dedup (\<lambda>x. x) (filter (\<lambda>x. x \<notin> seen) xs)"
proof (induction xs arbitrary: seen)
  case Nil
  then show ?case by simp
next
  case (Cons x xs)
  have "filter (\<lambda>y. y \<noteq> x) (filter (\<lambda>y. y \<notin> seen) xs) = filter (\<lambda>y. y \<notin> insert x seen) xs"
    by (auto intro!: filter_cong)
  then show ?case using Cons.IH [of "insert x seen"] Cons.IH [of seen] by simp
qed

lemma distinct_code:
  "iterator (distinct_seq (from_seq xs)) = Inr (first_seen_dedup (\<lambda>x. x) xs)"
  by (simp add: iterator_def distinct_seq_def generator_def from_seq_def sync_source_def
      distinct_loop_eq)

lemma union_code:
  "iterator (union_seq (from_seq self) (from_seq other) keySelector)
     = Inr (first_seen_dedup (key_of keySelector) (self @ other))"
proof -
  have u: "union_loop keySelector {} self
      = (first_seen_dedup (key_of keySelector) self, key_of keySelector ` set self)"
    by (simp add: union_loop_eq)
  have v: "union_loop keySelector (key_of keySelector ` set self) other
      = (first_seen_dedup (key_of keySelector)
           (filter (\<lambda>y. key_of keySelector y \<notin> key_of keySelector ` set self) other),
         key_of keySelector ` set self \<union> key_of keySelector ` set other)"
    by (rule union_loop_eq)
  show ?thesis
    by (simp add: iterator_def union_seq_def generator_def from_seq_def sync_source_def u v
        first_seen_dedup_append)
qed

text \<open>
  C4. With a \<^verbatim>\<open>keySelector\<close>, \<^verbatim>\<open>intersect\<close> looks the key of each element of \<open>self\<close> up
  in the set of the elements of \<open>other\<close>, not in the set of their keys. Two records with
  the same \<^verbatim>\<open>id\<close>: the key of the element of \<open>self\<close> is among the keys of \<open>other\<close>, and
  yet nothing is yielded.
\<close>

theorem intersect_keySelector_failing_input:
  "get_prop ''id'' (JObj 1 [(''id'', JNum 1), (''name'', JStr ''a'')])
     \<in> get_prop ''id'' ` set [JObj 2 [(''id'', JNum 1), (''name'', JStr ''b'')]]
   \<and> iterator (intersect (from_seq [JObj 1 [(''id'', JNum 1), (''name'', JStr ''a'')]])
                 (from_seq [JObj 2 [(''id'', JNum 1), (''name'', JStr ''b'')]])
                 (Some (get_prop ''id'')))
     = Inr []"
  by (simp add: intersect_code key_of_def)

text \<open>
  C7, the claim as stated fails: two objects with the same properties at different
  addresses have the same \<^verbatim>\<open>JSON.stringify\<close> encoding, and \<^verbatim>\<open>distinct\<close> yields both.
\<close>

theorem distinct_structural_key_counterexample:
  "JSON_stringify (JObj 1 [(''id'', JNum 1)]) = JSON_stringify (JObj 2 [(''id'', JNum 1)])
   \<and> iterator (distinct_seq (from_seq [JObj 1 [(''id'', JNum 1)], JObj 2 [(''id'', JNum 1)]]))
     = Inr [JObj 1 [(''id'', JNum 1)], JObj 2 [(''id'', JNum 1)]]"
  by (simp add: distinct_code JSON_stringify_def)

text \<open>
  C7, as amended. With no key function, memoization derives the key with
  \<^verbatim>\<open>JSON.stringify\<close>, which does not read the address of an object: two objects with the
  same properties (in the same order) share one cache entry, and \<^verbatim>\<open>fn\<close> is invoked on
  the first only. The set-like operators \<^verbatim>\<open>distinct\<close>, \<^verbatim>\<open>union\<close> and \<^verbatim>\<open>intersect\<close>
  compare the elements themselves: two such objects at different addresses are two
  different elements for them.
\<close>

theorem default_key_derivation:
  "memo_key None (JObj a1 props) = memo_key None (JObj a2 props)
   \<and> calls (snd (memoize_loop fn None [JObj a1 props, JObj a2 props] new_memo)) = [JObj a1 props]
   \<and> iterator (distinct_seq (from_seq items)) = Inr (first_seen_dedup (\<lambda>x. x) items)
   \<and> iterator (union_seq (from_seq items) (from_seq others) None)
       = Inr (first_seen_dedup (\<lambda>x. x) (items @ others))
   \<and> iterator (intersect (from_seq items) (from_seq others) None)
       = Inr (filter (\<lambda>x. x \<in> set others) items)
   \<and> (a1 \<noteq> a2 \<longrightarrow>
        iterator (distinct_seq (from_seq [JObj a1 props, JObj a2 props]))
          = Inr [JObj a1 props, JObj a2 props]
        \<and> iterator (union_seq (from_seq [JObj a1 props]) (from_seq [JObj a2 props]) None)
          = Inr [JObj a1 props, JObj a2 props]
        \<and> iterator (intersect (from_seq [JObj a1 props]) (from_seq [JObj a2 props]) None)
          = Inr [])"
proof -
  have k: "memo_key None (JObj a1 props) = memo_key None (JObj a2 props)"
    by (simp add: memo_key_def JSON_stringify_def)
  have id: "key_of None = (\<lambda>x. x)"
    by (simp add: key_of_def fun_eq_iff)
  have c: "calls (snd (memoize_loop fn None [JObj a1 props, JObj a2 props] new_memo))
      = [JObj a1 props]"
    by (simp add: memoize_loop_calls new_memo_def k del: memoize_loop.simps)
  show ?thesis
    using k c by (simp add: distinct_code union_code intersect_code id del: memoize_loop.simps)
qed

theorem default_key_derivation_witness:
  "memo_key None (JObj 1 [(''id'', JNum 1)]) = memo_key None (JObj 2 [(''id'', JNum 1)])
   \<and> calls (snd (memoize_loop square None
        [JObj 1 [(''id'', JNum 1)], JObj 2 [(''id'', JNum 1)]] new_memo))
     = [JObj 1 [(''id'', JNum 1)]]
   \<and> iterator (distinct_seq (from_seq [JObj 1 [(''id'', JNum 1)], JObj 2 [(''id'', JNum 1)]]))
     = Inr [JObj 1 [(''id'', JNum 1)], JObj 2 [(''id'', JNum 1)]]
   \<and> iterator (union_seq (from_seq [JObj 1 [(''id'', JNum 1)]])
        (from_seq [JObj 2 [(''id'', JNum 1)]]) None)
     = Inr [JObj 1 [(''id'', JNum 1)], JObj 2 [(''id'', JNum 1)]]
   \<and> iterator (intersect (from_seq [JObj 1 [(''id'', JNum 1)]])
        (from_seq [JObj 2 [(''id'', JNum 1)]]) None)
     = Inr []"
proof -
  have ne: "(1::nat) \<noteq> 2" by simp
  show ?thesis
    using ne default_key_derivation [of 1 "[(''id'', JNum 1)]" 2 square "[]" "[]"]
    by blast
qed

subsection \<open>\<^verbatim>\<open>orderBy\<close> and \<^verbatim>\<open>orderByDescending\<close>\<close>

lemma orderBy_code:
  "iterator (orderBy (from_seq xs) selector) = Inr (orderBy_sort selector xs)"
  "iterator (orderByDescending (from_seq xs) selector) = Inr (orderByDescending_sort selector xs)"
  by (simp_all add: iterator_def orderBy_def orderByDescending_def generator_def from_seq_def
      sync_source_def Array_from_def)

text \<open>
  C3. The three filters of \<^verbatim>\<open>orderBy\<close> and \<^verbatim>\<open>orderByDescending\<close> keep an element only
  when its key is \<^verbatim>\<open><\<close>, \<^verbatim>\<open>===\<close> or \<^verbatim>\<open>>\<close> the pivot. A key \<open>NaN\<close> is none of the
  three: on \<open>[3, NaN, 1]\<close> with the identity selector the element \<open>NaN\<close> is lost, and the
  output is not a permutation of the input.
\<close>

theorem orderBy_drops_NaN_keys:
  "iterator (orderBy (from_seq [Num 3, NaN, Num 1]) (\<lambda>x. x)) = Inr [Num 1, Num 3]
   \<and> iterator (orderByDescending (from_seq [Num 3, NaN, Num 1]) (\<lambda>x. x)) = Inr [Num 3, Num 1]
   \<and> mset [Num 1, Num 3] \<noteq> mset [Num 3, NaN, Num 1]"
proof -
  have "orderBy_sort (\<lambda>x. x) [Num 3, NaN, Num 1] = [Num 1, Num 3]"
    by (simp add: orderBy_sort.simps Let_def)
  moreover have "orderByDescending_sort (\<lambda>x. x) [Num 3, NaN, Num 1] = [Num 3, Num 1]"
    by (simp add: orderByDescending_sort.simps Let_def)
  moreover have "mset [Num 1, Num 3] \<noteq> mset [Num 3, NaN, Num 1]"
  proof
    assume "mset [Num 1, Num 3] = mset [Num 3, NaN, Num 1]"
    then have "size (mset [Num 1, Num 3]) = size (mset [Num 3, NaN, Num 1])" by simp
    then show False by simp
  qed
  ultimately show ?thesis by (simp add: orderBy_code)
qed

text \<open>
  When no derived key is \<open>NaN\<close>, every key is less than, equal to or greater than the
  pivot, and both orderings are permutations of the input, sorted by key, that keep the
  input order of the elements with equal keys.
\<close>

lemma trichotomy:
  "a \<noteq> NaN \<Longrightarrow> b \<noteq> NaN \<Longrightarrow>
   (js_lt a b \<and> \<not> js_eq a b \<and> \<not> js_gt a b)
   \<or> (\<not> js_lt a b \<and> js_eq a b \<and> \<not> js_gt a b)
   \<or> (\<not> js_lt a b \<and> \<not> js_eq a b \<and> js_gt a b)"
  by (cases a; cases b) auto

lemma js_eq_iff: "js_eq a b \<longleftrightarrow> a \<noteq> NaN \<and> a = b"
  by (cases a; cases b) auto

lemma js_lt_trans: "js_lt a b \<Longrightarrow> js_lt b c \<Longrightarrow> js_lt a c"
  by (cases a; cases b; cases c) auto

lemma js_gt_iff: "js_gt a b \<longleftrightarrow> js_lt b a"
  by (cases a; cases b) auto

lemma js_lt_irrefl: "\<not> js_lt a a"
  by (cases a) auto

lemma js_lt_asym: "js_lt a b \<Longrightarrow> \<not> js_lt b a"
  by (cases a; cases b) auto

lemma three_way_mset:
  "\<forall>x\<in>set xs. (P x \<and> \<not> Q x \<and> \<not> R x) \<or> (\<not> P x \<and> Q x \<and> \<not> R x) \<or> (\<not> P x \<and> \<not> Q x \<and> R x)
   \<Longrightarrow> mset (filter P xs) + mset (filter Q xs) + mset (filter R xs) = mset xs"
  by (induction xs) auto

lemma all_pairs_sorted_wrt:
  "(\<And>x y. x \<in> set xs \<Longrightarrow> y \<in> set xs \<Longrightarrow> R x y) \<Longrightarrow> sorted_wrt R xs"
  by (induction xs) auto

lemma orderBy_sort_short: "length xs \<le> 1 \<Longrightarrow> orderBy_sort selector xs = xs"
  by (simp add: orderBy_sort.simps)

lemma orderBy_sort_long:
  "\<not> length xs \<le> 1 \<Longrightarrow>
   orderBy_sort selector xs =
     orderBy_sort selector (filter (\<lambda>x. js_lt (selector x) (selector (last xs))) xs)
     @ filter (\<lambda>x. js_eq (selector x) (selector (last xs))) xs
     @ orderBy_sort selector (filter (\<lambda>x. js_gt (selector x) (selector (last xs))) xs)"
  by (subst orderBy_sort.simps) (simp add: Let_def)

lemma filter_last_shorter:
  "\<not> length xs \<le> 1 \<Longrightarrow> \<not> P (last xs) \<Longrightarrow> length (filter P xs) < length xs"
proof -
  assume "\<not> length xs \<le> 1" and n: "\<not> P (last xs)"
  then have "xs \<noteq> []" by auto
  then have "last xs \<in> set xs" by (rule last_in_set)
  then show ?thesis using n by (rule length_filter_less)
qed

lemma orderBy_sort_mset:
  "\<forall>x\<in>set xs. selector x \<noteq> NaN \<Longrightarrow> mset (orderBy_sort selector xs) = mset xs"
proof (induction xs rule: length_induct)
  case (1 xs)
  show ?case
  proof (cases "length xs \<le> 1")
    case True
    then show ?thesis by (simp add: orderBy_sort_short)
  next
    case False
    let ?p = "selector (last xs)"
    let ?l = "filter (\<lambda>x. js_lt (selector x) ?p) xs"
    let ?e = "filter (\<lambda>x. js_eq (selector x) ?p) xs"
    let ?r = "filter (\<lambda>x. js_gt (selector x) ?p) xs"
    from False have "xs \<noteq> []" by auto
    then have "last xs \<in> set xs" by (rule last_in_set)
    then have p: "?p \<noteq> NaN" using "1.prems" by blast
    have "length ?l < length xs"
      using False by (rule filter_last_shorter) (simp add: js_lt_irrefl)
    moreover have "\<forall>x\<in>set ?l. selector x \<noteq> NaN" using "1.prems" by simp
    ultimately have l: "mset (orderBy_sort selector ?l) = mset ?l"
      using "1.IH" by blast
    have "length ?r < length xs"
      using False by (rule filter_last_shorter) (simp add: js_gt_iff js_lt_irrefl)
    moreover have "\<forall>x\<in>set ?r. selector x \<noteq> NaN" using "1.prems" by simp
    ultimately have r: "mset (orderBy_sort selector ?r) = mset ?r"
      using "1.IH" by blast
    have "mset ?l + mset ?e + mset ?r = mset xs"
      by (rule three_way_mset) (use "1.prems" p trichotomy in blast)
    then show ?thesis
      by (simp add: orderBy_sort_long [OF False] l r add.assoc)
  qed
qed

lemma orderBy_sort_set:
  "\<forall>x\<in>set xs. selector x \<noteq> NaN \<Longrightarrow> set (orderBy_sort selector xs) = set xs"
  by (metis orderBy_sort_mset set_mset_mset)

lemma orderBy_sort_sorted:
  "\<forall>x\<in>set xs. selector x \<noteq> NaN \<Longrightarrow>
   sorted_wrt (\<lambda>a b. \<not> js_gt (selector a) (selector b)) (orderBy_sort selector xs)"
proof (induction xs rule: length_induct)
  case (1 xs)
  show ?case
  proof (cases "length xs \<le> 1")
    case True
    then have "xs = [] \<or> (\<exists>x. xs = [x])"
      by (cases xs) auto
    then show ?thesis using True by (auto simp: orderBy_sort_short)
  next
    case False
    let ?p = "selector (last xs)"
    let ?l = "filter (\<lambda>x. js_lt (selector x) ?p) xs"
    let ?e = "filter (\<lambda>x. js_eq (selector x) ?p) xs"
    let ?r = "filter (\<lambda>x. js_gt (selector x) ?p) xs"
    let ?R = "\<lambda>a b. \<not> js_gt (selector a) (selector b)"
    have nl: "\<forall>x\<in>set ?l. selector x \<noteq> NaN" and nr: "\<forall>x\<in>set ?r. selector x \<noteq> NaN"
      using "1.prems" by simp_all
    have "length ?l < length xs"
      using False by (rule filter_last_shorter) (simp add: js_lt_irrefl)
    then have sl: "sorted_wrt ?R (orderBy_sort selector ?l)"
      using "1.IH" nl by blast
    have "length ?r < length xs"
      using False by (rule filter_last_shorter) (simp add: js_gt_iff js_lt_irrefl)
    then have sr: "sorted_wrt ?R (orderBy_sort selector ?r)"
      using "1.IH" nr by blast
    have se: "sorted_wrt ?R ?e"
      by (rule all_pairs_sorted_wrt) (auto simp: js_eq_iff js_gt_iff js_lt_irrefl)
    have setl: "set (orderBy_sort selector ?l) = set ?l" using nl by (rule orderBy_sort_set)
    have setr: "set (orderBy_sort selector ?r) = set ?r" using nr by (rule orderBy_sort_set)
    have le: "\<forall>x\<in>set ?l. \<forall>y\<in>set ?e. ?R x y"
      by (auto simp: js_eq_iff js_gt_iff dest: js_lt_asym)
    have lr: "\<forall>x\<in>set ?l. \<forall>y\<in>set ?r. ?R x y"
      by (auto simp: js_gt_iff dest: js_lt_trans js_lt_asym)
    have er: "\<forall>x\<in>set ?e. \<forall>y\<in>set ?r. ?R x y"
      by (auto simp: js_eq_iff js_gt_iff dest: js_lt_asym)
    show ?thesis
      unfolding orderBy_sort_long [OF False]
      using sl sr se le lr er by (auto simp: sorted_wrt_append setl setr)
  qed
qed

lemma filter_in_bucket:
  "\<forall>x\<in>set xs. K x \<longrightarrow> P x \<Longrightarrow> filter K (filter P xs) = filter K xs"
  by (induction xs) auto

lemma filter_not_in_bucket:
  "\<forall>x\<in>set xs. K x \<longrightarrow> \<not> P x \<Longrightarrow> filter K (filter P xs) = []"
  by (induction xs) auto

lemma orderBy_sort_stable:
  "\<forall>x\<in>set xs. selector x \<noteq> NaN \<Longrightarrow>
   filter (\<lambda>x. selector x = k) (orderBy_sort selector xs) = filter (\<lambda>x. selector x = k) xs"
proof (induction xs rule: length_induct)
  case (1 xs)
  show ?case
  proof (cases "length xs \<le> 1")
    case True
    then show ?thesis by (simp add: orderBy_sort_short)
  next
    case False
    let ?p = "selector (last xs)"
    let ?P = "\<lambda>x. js_lt (selector x) ?p"
    let ?Q = "\<lambda>x. js_eq (selector x) ?p"
    let ?R = "\<lambda>x. js_gt (selector x) ?p"
    let ?K = "\<lambda>x. selector x = k"
    from False have "xs \<noteq> []" by auto
    then have "last xs \<in> set xs" by (rule last_in_set)
    then have p: "?p \<noteq> NaN" using "1.prems" by blast
    have nl: "\<forall>x\<in>set (filter ?P xs). selector x \<noteq> NaN"
      and nr: "\<forall>x\<in>set (filter ?R xs). selector x \<noteq> NaN"
      using "1.prems" by simp_all
    have "length (filter ?P xs) < length xs"
      using False by (rule filter_last_shorter) (simp add: js_lt_irrefl)
    then have l: "filter ?K (orderBy_sort selector (filter ?P xs)) = filter ?K (filter ?P xs)"
      using "1.IH" nl by blast
    have "length (filter ?R xs) < length xs"
      using False by (rule filter_last_shorter) (simp add: js_gt_iff js_lt_irrefl)
    then have r: "filter ?K (orderBy_sort selector (filter ?R xs)) = filter ?K (filter ?R xs)"
      using "1.IH" nr by blast
    have split: "filter ?K (orderBy_sort selector xs)
        = filter ?K (filter ?P xs) @ filter ?K (filter ?Q xs) @ filter ?K (filter ?R xs)"
      by (simp only: orderBy_sort_long [OF False] filter_append l r)
    consider (none) "\<forall>x\<in>set xs. \<not> ?K x"
      | (lt) "js_lt k ?p" "\<not> js_eq k ?p" "\<not> js_gt k ?p"
      | (eq) "\<not> js_lt k ?p" "js_eq k ?p" "\<not> js_gt k ?p"
      | (gt) "\<not> js_lt k ?p" "\<not> js_eq k ?p" "js_gt k ?p"
      using trichotomy [of k ?p] p "1.prems" by (cases "k = NaN") auto
    then have "filter ?K (filter ?P xs) @ filter ?K (filter ?Q xs) @ filter ?K (filter ?R xs)
        = filter ?K xs"
    proof cases
      case none
      have f0: "filter ?K (filter ?P xs) = filter ?K xs"
        by (rule filter_in_bucket) (use none in auto)
      have f1: "filter ?K (filter ?Q xs) = []"
        by (rule filter_not_in_bucket) (use none in auto)
      have f2: "filter ?K (filter ?R xs) = []"
        by (rule filter_not_in_bucket) (use none in auto)
      show ?thesis by (simp only: f0 f1 f2 append_Nil append_Nil2)
    next
      case lt
      have f0: "filter ?K (filter ?P xs) = filter ?K xs"
        by (rule filter_in_bucket) (use lt in auto)
      have f1: "filter ?K (filter ?Q xs) = []"
        by (rule filter_not_in_bucket) (use lt in auto)
      have f2: "filter ?K (filter ?R xs) = []"
        by (rule filter_not_in_bucket) (use lt in auto)
      show ?thesis by (simp only: f0 f1 f2 append_Nil append_Nil2)
    next
      case eq
      have f0: "filter ?K (filter ?P xs) = []"
        by (rule filter_not_in_bucket) (use eq in auto)
      have f1: "filter ?K (filter ?Q xs) = filter ?K xs"
        by (rule filter_in_bucket) (use eq in auto)
      have f2: "filter ?K (filter ?R xs) = []"
        by (rule filter_not_in_bucket) (use eq in auto)
      show ?thesis by (simp only: f0 f1 f2 append_Nil append_Nil2)
    next
      case gt
      have f0: "filter ?K (filter ?P xs) = []"
        by (rule filter_not_in_bucket) (use gt in auto)
      have f1: "filter ?K (filter ?Q xs) = []"
        by (rule filter_not_in_bucket) (use gt in auto)
      have f2: "filter ?K (filter ?R xs) = filter ?K xs"
        by (rule filter_in_bucket) (use gt in auto)
      show ?thesis by (simp only: f0 f1 f2 append_Nil append_Nil2)
    qed
    with split show ?thesis by simp
  qed
qed

lemma orderBy_sort_comparable_keys:
  assumes "\<forall>x\<in>set xs. selector x \<noteq> NaN"
  shows "mset (orderBy_sort selector xs) = mset xs"
    and "sorted_wrt (\<lambda>a b. \<not> js_gt (selector a) (selector b)) (orderBy_sort selector xs)"
    and "filter (\<lambda>x. selector x = k) (orderBy_sort selector xs) = filter (\<lambda>x. selector x = k) xs"
  using assms by (rule orderBy_sort_mset, rule orderBy_sort_sorted, rule orderBy_sort_stable)

text \<open>Descending order is ascending order on the negated keys.\<close>

lemma num_neg_simps:
  "js_gt a b \<longleftrightarrow> js_lt (num_neg a) (num_neg b)"
  "js_lt a b \<longleftrightarrow> js_gt (num_neg a) (num_neg b)"
  "js_eq a b \<longleftrightarrow> js_eq (num_neg a) (num_neg b)"
  "num_neg a = NaN \<longleftrightarrow> a = NaN"
  "num_neg a = num_neg b \<longleftrightarrow> a = b"
  by (cases a; cases b; simp)+

lemma orderByDescending_sort_neg:
  "orderByDescending_sort selector xs = orderBy_sort (\<lambda>x. num_neg (selector x)) xs"
proof (induction xs rule: length_induct)
  case (1 xs)
  show ?case
  proof (cases "length xs \<le> 1")
    case True
    then show ?thesis by (simp add: orderBy_sort_short orderByDescending_sort.simps)
  next
    case False
    let ?p = "selector (last xs)"
    have "length (filter (\<lambda>x. js_gt (selector x) ?p) xs) < length xs"
      using False by (rule filter_last_shorter) (simp add: js_gt_iff js_lt_irrefl)
    then have l: "orderByDescending_sort selector (filter (\<lambda>x. js_gt (selector x) ?p) xs)
        = orderBy_sort (\<lambda>x. num_neg (selector x)) (filter (\<lambda>x. js_gt (selector x) ?p) xs)"
      using "1.IH" by blast
    have "length (filter (\<lambda>x. js_lt (selector x) ?p) xs) < length xs"
      using False by (rule filter_last_shorter) (simp add: js_lt_irrefl)
    then have r: "orderByDescending_sort selector (filter (\<lambda>x. js_lt (selector x) ?p) xs)
        = orderBy_sort (\<lambda>x. num_neg (selector x)) (filter (\<lambda>x. js_lt (selector x) ?p) xs)"
      using "1.IH" by blast
    have "orderByDescending_sort selector xs
        = orderByDescending_sort selector (filter (\<lambda>x. js_gt (selector x) ?p) xs)
          @ filter (\<lambda>x. js_eq (selector x) ?p) xs
          @ orderByDescending_sort selector (filter (\<lambda>x. js_lt (selector x) ?p) xs)"
      using False by (subst orderByDescending_sort.simps) (simp add: Let_def)
    then show ?thesis
      by (simp add: l r orderBy_sort_long [OF False] num_neg_simps(1-3) [symmetric])
  qed
qed

lemma orderByDescending_sort_comparable_keys:
  assumes "\<forall>x\<in>set xs. selector x \<noteq> NaN"
  shows "mset (orderByDescending_sort selector xs) = mset xs"
    and "sorted_wrt (\<lambda>a b. \<not> js_lt (selector a) (selector b)) (orderByDescending_sort selector xs)"
    and "filter (\<lambda>x. selector x = k) (orderByDescending_sort selector xs)
          = filter (\<lambda>x. selector x = k) xs"
proof -
  let ?neg = "\<lambda>x. num_neg (selector x)"
  have n: "\<forall>x\<in>set xs. ?neg x \<noteq> NaN" using assms by (simp add: num_neg_simps)
  show "mset (orderByDescending_sort selector xs) = mset xs"
    unfolding orderByDescending_sort_neg using n by (rule orderBy_sort_mset)
  have "sorted_wrt (\<lambda>a b. \<not> js_gt (?neg a) (?neg b)) (orderBy_sort ?neg xs)"
    using n by (rule orderBy_sort_sorted)
  then show "sorted_wrt (\<lambda>a b. \<not> js_lt (selector a) (selector b)) (orderByDescending_sort selector xs)"
    by (simp add: orderByDescending_sort_neg num_neg_simps(2) [symmetric])
  have "filter (\<lambda>x. ?neg x = num_neg k) (orderBy_sort ?neg xs) = filter (\<lambda>x. ?neg x = num_neg k) xs"
    using n by (rule orderBy_sort_stable)
  then show "filter (\<lambda>x. selector x = k) (orderByDescending_sort selector xs)
          = filter (\<lambda>x. selector x = k) xs"
    by (simp add: orderByDescending_sort_neg num_neg_simps)
qed

subsection \<open>\<^verbatim>\<open>take\<close> pulls its whole upstream\<close>











subsection \<open>\<^verbatim>\<open>memoizeAsync\<close> under interleaved traversals\<close>

lemma body_hit:
  "c (memo_key ks item) = Some p \<Longrightarrow> memoizeAsync_body ks item (c, l) = (p, c, l)"
  by (simp add: memoizeAsync_body_def)

lemma body_miss:
  "c (memo_key ks item) = None \<Longrightarrow>
   memoizeAsync_body ks item (c, l) = (length l, c(memo_key ks item \<mapsto> length l), l @ [item])"
  by (simp add: memoizeAsync_body_def Let_def)

lemma inv_initial: "inv1 ks initial" "inv2 ks initial" "inv3 ks initial"
  by (simp_all add: inv1_def inv2_def inv3_def initial_def)

lemma inv_start:
  "inv1 ks s \<Longrightarrow> inv1 ks (start_traversal items s)"
  "inv2 ks s \<Longrightarrow> inv2 ks (start_traversal items s)"
  "inv3 ks s \<Longrightarrow> inv3 ks (start_traversal items s)"
  by (auto simp: inv1_def inv2_def inv3_def start_traversal_def)

lemma inv_settle:
  "inv1 ks s \<Longrightarrow> inv1 ks (settle p s)"
  "inv2 ks s \<Longrightarrow> inv2 ks (settle p s)"
  "inv3 ks s \<Longrightarrow> inv3 ks (settle p s)"
  by (auto simp: inv1_def inv2_def inv3_def settle_def)

lemma inv3_update:
  assumes "inv3 ks s" and "i < length (tasks s)"
    and "\<And>item p. (item, p) \<in> set (handed t) \<Longrightarrow> acache s (memo_key ks item) = Some p"
  shows "inv3 ks (s\<lparr>tasks := (tasks s)[i := t]\<rparr>)"
proof -
  have "set ((tasks s)[i := t]) \<subseteq> insert t (set (tasks s))"
    by (rule set_update_subset_insert)
  then show ?thesis
    using assms unfolding inv3_def by (simp add: subset_iff) blast
qed

lemma inv_resume:
  "inv1 ks s \<Longrightarrow> inv1 ks (resume i s)"
  "inv2 ks s \<Longrightarrow> inv2 ks (resume i s)"
  "inv3 ks s \<Longrightarrow> inv3 ks (resume i s)"
proof -
  show "inv1 ks s \<Longrightarrow> inv1 ks (resume i s)"
    by (auto simp: inv1_def resume_def split: task.splits)
  show "inv2 ks s \<Longrightarrow> inv2 ks (resume i s)"
    by (auto simp: inv2_def resume_def split: task.splits)
  assume a: "inv3 ks s"
  show "inv3 ks (resume i s)"
  proof (cases "i < length (tasks s)")
    case False
    then show ?thesis using a by (simp add: resume_def)
  next
    case True
    then have mem: "tasks s ! i \<in> set (tasks s)" by simp
    show ?thesis
    proof (cases "tasks s ! i")
      case (Pulling pending out)
      then show ?thesis using a True by (simp add: resume_def)
    next
      case (Awaiting item promise rest out)
      have "\<And>it p. (it, p) \<in> set (handed (Pulling rest (out @ [(item, promise)]))) \<Longrightarrow>
          acache s (memo_key ks it) = Some p"
        using a mem Awaiting unfolding inv3_def by (metis handed.simps)
      then have "inv3 ks (s\<lparr>tasks := (tasks s)[i := Pulling rest (out @ [(item, promise)])]\<rparr>)"
        using a True by (intro inv3_update)
      then show ?thesis using a True Awaiting by (simp add: resume_def)
    qed
  qed
qed

lemma deliver_disabled:
  "\<not> i < length (tasks s) \<Longrightarrow> deliver ks i s = s"
  "tasks s ! i = Pulling [] out \<Longrightarrow> deliver ks i s = s"
  "tasks s ! i = Awaiting item p rest out \<Longrightarrow> deliver ks i s = s"
  by (simp_all add: deliver_def)

lemma deliver_hit:
  "i < length (tasks s) \<Longrightarrow> tasks s ! i = Pulling (item # rest) out \<Longrightarrow>
   acache s (memo_key ks item) = Some p \<Longrightarrow>
   deliver ks i s = s\<lparr>tasks := (tasks s)[i := Awaiting item p rest out]\<rparr>"
  by (simp add: deliver_def body_hit)

lemma deliver_miss:
  "i < length (tasks s) \<Longrightarrow> tasks s ! i = Pulling (item # rest) out \<Longrightarrow>
   acache s (memo_key ks item) = None \<Longrightarrow>
   deliver ks i s =
     s\<lparr>acache := (acache s)(memo_key ks item \<mapsto> length (acalls s)),
       acalls := acalls s @ [item],
       tasks := (tasks s)[i := Awaiting item (length (acalls s)) rest out]\<rparr>"
  by (simp add: deliver_def body_miss)

lemma inv_deliver:
  assumes i1: "inv1 ks s" and i2: "inv2 ks s" and i3: "inv3 ks s"
  shows "inv1 ks (deliver ks i s) \<and> inv2 ks (deliver ks i s) \<and> inv3 ks (deliver ks i s)"
proof (cases "i < length (tasks s)")
  case False
  then show ?thesis using assms by (simp add: deliver_disabled)
next
  case True
  then have mem: "tasks s ! i \<in> set (tasks s)" by simp
  show ?thesis
  proof (cases "tasks s ! i")
    case (Awaiting item p rest out)
    then show ?thesis using assms by (simp add: deliver_disabled)
  next
    case (Pulling pending out)
    show ?thesis
    proof (cases pending)
      case Nil
      then show ?thesis using assms Pulling by (simp add: deliver_disabled)
    next
      case (Cons item rest)
      with Pulling have t: "tasks s ! i = Pulling (item # rest) out" by simp
      have old: "\<And>it p. (it, p) \<in> set out \<Longrightarrow> acache s (memo_key ks it) = Some p"
        using i3 mem t unfolding inv3_def by (metis handed.simps(1))
      show ?thesis
      proof (cases "acache s (memo_key ks item)")
        case (Some p)
        let ?s' = "s\<lparr>tasks := (tasks s)[i := Awaiting item p rest out]\<rparr>"
        have d: "deliver ks i s = ?s'" using True t Some by (rule deliver_hit)
        have "inv1 ks ?s'" using i1 by (simp add: inv1_def)
        moreover have "inv2 ks ?s'" using i2 by (simp add: inv2_def)
        moreover have "inv3 ks ?s'"
          using i3 True by (rule inv3_update) (use old Some in auto)
        ultimately show ?thesis by (simp only: d simp_thms)
      next
        case None
        let ?n = "length (acalls s)"
        let ?k = "memo_key ks item"
        let ?mid = "s\<lparr>acache := (acache s)(?k \<mapsto> ?n), acalls := acalls s @ [item]\<rparr>"
        let ?s' = "s\<lparr>acache := (acache s)(?k \<mapsto> ?n), acalls := acalls s @ [item],
          tasks := (tasks s)[i := Awaiting item ?n rest out]\<rparr>"
        have d: "deliver ks i s = ?s'" using True t None by (rule deliver_miss)
        have keys: "\<And>j. j < ?n \<Longrightarrow> memo_key ks (acalls s ! j) \<noteq> ?k"
          using i2 None unfolding inv2_def by (metis option.distinct(1))
        have a1: "inv1 ks ?s'"
          unfolding inv1_def
        proof (intro allI impI)
          fix k p
          assume c: "acache ?s' k = Some p"
          show "p < length (acalls ?s') \<and> memo_key ks (acalls ?s' ! p) = k"
          proof (cases "k = ?k")
            case True
            then have "p = ?n" using c by simp
            then show ?thesis using True by simp
          next
            case False
            then have "acache s k = Some p" using c by simp
            then have "p < ?n \<and> memo_key ks (acalls s ! p) = k"
              using i1 unfolding inv1_def by blast
            then show ?thesis by (simp add: nth_append)
          qed
        qed
        have a2: "inv2 ks ?s'"
          unfolding inv2_def
        proof (intro allI impI)
          fix j
          assume "j < length (acalls ?s')"
          then consider "j < ?n" | "j = ?n" by fastforce
          then show "acache ?s' (memo_key ks (acalls ?s' ! j)) = Some j"
          proof cases
            case 1
            then have "acache s (memo_key ks (acalls s ! j)) = Some j"
              using i2 unfolding inv2_def by blast
            then show ?thesis using 1 keys [OF 1] by (simp add: nth_append)
          next
            case 2
            then show ?thesis by simp
          qed
        qed
        have fresh: "\<And>it p. acache s (memo_key ks it) = Some p \<Longrightarrow>
            acache ?mid (memo_key ks it) = Some p"
          using None by auto
        have m3: "inv3 ks ?mid"
          using i3 fresh unfolding inv3_def by simp
        have "inv3 ks (?mid\<lparr>tasks := (tasks ?mid)[i := Awaiting item ?n rest out]\<rparr>)"
        proof (rule inv3_update [OF m3])
          show "i < length (tasks ?mid)" using True by simp
        next
          fix it p
          assume "(it, p) \<in> set (handed (Awaiting item ?n rest out))"
          then consider "(it, p) \<in> set out" | "it = item" "p = ?n" by auto
          then show "acache ?mid (memo_key ks it) = Some p"
          proof cases
            case 1
            then show ?thesis using old fresh by blast
          next
            case 2
            then show ?thesis by simp
          qed
        qed
        then have a3: "inv3 ks ?s'" by simp
        show ?thesis using a1 a2 a3 by (simp only: d simp_thms)
      qed
    qed
  qed
qed

lemma reachable_inv:
  "reachable ks s \<Longrightarrow> inv1 ks s \<and> inv2 ks s \<and> inv3 ks s"
proof (induction rule: reachable.induct)
  case reach_initial
  then show ?case by (simp add: inv_initial)
next
  case (reach_start s items)
  then show ?case by (simp add: inv_start)
next
  case (reach_deliver s i)
  then show ?case by (simp add: inv_deliver)
next
  case (reach_settle s p)
  then show ?case by (simp add: inv_settle)
next
  case (reach_resume s i)
  then show ?case by (simp add: inv_resume)
qed

lemma inv_distinct:
  assumes "inv1 ks s" and "inv2 ks s"
  shows "distinct (map (memo_key ks) (acalls s))"
proof -
  have "\<And>i j. i < length (acalls s) \<Longrightarrow> j < length (acalls s) \<Longrightarrow>
      memo_key ks (acalls s ! i) = memo_key ks (acalls s ! j) \<Longrightarrow> i = j"
    using assms(2) unfolding inv2_def by (metis option.inject)
  then have "\<forall>i<length (acalls s). \<forall>j<length (acalls s).
      i \<noteq> j \<longrightarrow> memo_key ks (acalls s ! i) \<noteq> memo_key ks (acalls s ! j)"
    by blast
  then show ?thesis
    by (simp add: distinct_conv_nth)
qed

text \<open>
  C1. The cache key of an item is what the caller's key selector returns for it and,
  without a key selector, its \<^verbatim>\<open>JSON.stringify\<close>. In every state that cooperative
  interleaving of any number of traversals of one memoized sequence can reach: \<^verbatim>\<open>fn\<close>
  has been invoked at most once per key; every future handed to a traversal for an item,
  the one it is awaiting included and whether or not it has settled, is the future the
  cache holds for the key of that item; a cached future is the one created by the
  invocation of \<^verbatim>\<open>fn\<close> for its key; a pull for a key that is in the cache receives the
  cached future without invoking \<^verbatim>\<open>fn\<close>; and a pull for a key that is not in the cache
  invokes \<^verbatim>\<open>fn\<close> once and has put the new future into the cache when it suspends to
  await it.
\<close>

theorem memoizeAsync_at_most_once:
  assumes "reachable keySelector s"
  shows "memo_key (Some f) x = f x
    \<and> memo_key None x = JSON_stringify x
    \<and> distinct (map (memo_key keySelector) (acalls s))
    \<and> (\<forall>t item p. t \<in> set (tasks s) \<longrightarrow> (item, p) \<in> set (handed t) \<longrightarrow>
          acache s (memo_key keySelector item) = Some p)
    \<and> (\<forall>k p. acache s k = Some p \<longrightarrow>
          p < length (acalls s) \<and> memo_key keySelector (acalls s ! p) = k)
    \<and> (\<forall>item p. acache s (memo_key keySelector item) = Some p \<longrightarrow>
          memoizeAsync_body keySelector item (acache s, acalls s) = (p, acache s, acalls s))
    \<and> (\<forall>item. acache s (memo_key keySelector item) = None \<longrightarrow>
          memoizeAsync_body keySelector item (acache s, acalls s)
            = (length (acalls s),
               (acache s)(memo_key keySelector item \<mapsto> length (acalls s)),
               acalls s @ [item]))"
proof -
  from assms have i: "inv1 keySelector s" "inv2 keySelector s" "inv3 keySelector s"
    using reachable_inv by blast+
  have "memo_key (Some f) x = f x" "memo_key None x = JSON_stringify x"
    by (simp_all add: memo_key_def)
  moreover have "distinct (map (memo_key keySelector) (acalls s))"
    using i(1,2) by (rule inv_distinct)
  moreover have "\<forall>t item p. t \<in> set (tasks s) \<longrightarrow> (item, p) \<in> set (handed t) \<longrightarrow>
          acache s (memo_key keySelector item) = Some p"
    using i(3) unfolding inv3_def .
  moreover have "\<forall>k p. acache s k = Some p \<longrightarrow>
          p < length (acalls s) \<and> memo_key keySelector (acalls s ! p) = k"
    using i(1) unfolding inv1_def .
  moreover have "\<forall>item p. acache s (memo_key keySelector item) = Some p \<longrightarrow>
          memoizeAsync_body keySelector item (acache s, acalls s) = (p, acache s, acalls s)"
    by (simp add: body_hit)
  moreover have "\<forall>item. acache s (memo_key keySelector item) = None \<longrightarrow>
          memoizeAsync_body keySelector item (acache s, acalls s)
            = (length (acalls s),
               (acache s)(memo_key keySelector item \<mapsto> length (acalls s)),
               acalls s @ [item])"
    by (simp add: body_miss)
  ultimately show ?thesis by (intro conjI)
qed

lemma two_traversals_state:
  "acalls two_traversals = [JNum 7]"
  "settled two_traversals = {}"
  "tasks two_traversals = [Awaiting (JNum 7) 0 [JNum 7] [], Awaiting (JNum 7) 0 [JNum 7] []]"
  "acache two_traversals = [memo_key None (JNum 7) \<mapsto> 0]"
  by (simp_all add: two_traversals_def deliver_def start_traversal_def initial_def
      memoizeAsync_body_def)

lemma two_traversals_by_id_state:
  "acalls two_traversals_by_id = [JObj 1 [(''id'', JNum 1), (''name'', JStr ''a'')]]"
  "settled two_traversals_by_id = {0}"
  "tasks two_traversals_by_id =
     [Awaiting (JObj 2 [(''id'', JNum 1), (''name'', JStr ''c'')]) 0 []
        [(JObj 1 [(''id'', JNum 1), (''name'', JStr ''a'')], 0)],
      Awaiting (JObj 1 [(''id'', JNum 1), (''name'', JStr ''a'')]) 0
        [JObj 2 [(''id'', JNum 1), (''name'', JStr ''c'')]] []]"
  "acache two_traversals_by_id = [JNum 1 \<mapsto> 0]"
  by (simp_all add: two_traversals_by_id_def same_id_objects_def deliver_def resume_def
      settle_def start_traversal_def initial_def memoizeAsync_body_def memo_key_def Let_def)

text \<open>
  The two runs defined above. In the first both traversals hold the future 0 for the item
  7 while it is pending. In the second, with the key selector \<^verbatim>\<open>o => o.id\<close>, \<^verbatim>\<open>fn\<close> has
  been invoked on the first object only, and the traversal that has received the second
  object, whose \<^verbatim>\<open>id\<close> is the same, holds the future of that invocation.
\<close>

theorem memoizeAsync_at_most_once_witness:
  "reachable None two_traversals
   \<and> tasks two_traversals = [Awaiting (JNum 7) 0 [JNum 7] [], Awaiting (JNum 7) 0 [JNum 7] []]
   \<and> settled two_traversals = {}
   \<and> acalls two_traversals = [JNum 7]
   \<and> distinct (map (memo_key None) (acalls two_traversals))
   \<and> acache two_traversals (memo_key None (JNum 7)) = Some 0
   \<and> reachable (Some (get_prop ''id'')) two_traversals_by_id
   \<and> tasks two_traversals_by_id =
       [Awaiting (JObj 2 [(''id'', JNum 1), (''name'', JStr ''c'')]) 0 []
          [(JObj 1 [(''id'', JNum 1), (''name'', JStr ''a'')], 0)],
        Awaiting (JObj 1 [(''id'', JNum 1), (''name'', JStr ''a'')]) 0
          [JObj 2 [(''id'', JNum 1), (''name'', JStr ''c'')]] []]
   \<and> acalls two_traversals_by_id = [JObj 1 [(''id'', JNum 1), (''name'', JStr ''a'')]]
   \<and> acache two_traversals_by_id
        (memo_key (Some (get_prop ''id'')) (JObj 2 [(''id'', JNum 1), (''name'', JStr ''c'')]))
       = Some 0"
proof -
  have r: "reachable None two_traversals"
    unfolding two_traversals_def by (intro reachable.intros)
  have m: "Awaiting (JNum 7) 0 [JNum 7] [] \<in> set (tasks two_traversals)"
    "(JNum 7, 0) \<in> set (handed (Awaiting (JNum 7) 0 [JNum 7] []))"
    by (simp_all add: two_traversals_state)
  from memoizeAsync_at_most_once [OF r]
  have a: "distinct (map (memo_key None) (acalls two_traversals))"
    and b: "acache two_traversals (memo_key None (JNum 7)) = Some 0"
    using m by blast+
  let ?A = "JObj 1 [(''id'', JNum 1), (''name'', JStr ''a'')]"
  let ?C = "JObj 2 [(''id'', JNum 1), (''name'', JStr ''c'')]"
  have r': "reachable (Some (get_prop ''id'')) two_traversals_by_id"
    unfolding two_traversals_by_id_def by (intro reachable.intros)
  have m': "Awaiting ?C 0 [] [(?A, 0)] \<in> set (tasks two_traversals_by_id)"
    "(?C, 0) \<in> set (handed (Awaiting ?C 0 [] [(?A, 0)]))"
    by (simp_all add: two_traversals_by_id_state)
  from memoizeAsync_at_most_once [OF r']
  have c: "acache two_traversals_by_id (memo_key (Some (get_prop ''id'')) ?C) = Some 0"
    using m' by blast
  from r a b r' c show ?thesis
    by (simp only: two_traversals_state two_traversals_by_id_state simp_thms)
qed

end
